theory Spec2Isabelle
  imports Complex_Main "HOL-Library.Word" "HOL-Library.Log_Nat"
begin

unbundle bit_operations_syntax

section \<open>JavaScript values used by the driver\<close>

text \<open>
  The driver \<^verbatim>\<open>src/index.js\<close> computes with JavaScript numbers. The values it
  handles itself (register selectors, instruction bytes, nibbles, the display-control
  mask) are integers, modelled by \<open>int\<close>; the bitwise operators first convert their
  operands with ToInt32 (reduction modulo \<open>2 ^ 32\<close> into the signed range), which is
  written out here.
\<close>

definition to_int32 :: "int \<Rightarrow> int" where
  "to_int32 n = signed_take_bit 31 n"

definition js_or :: "int \<Rightarrow> int \<Rightarrow> int" where
  "js_or a b = to_int32 a OR to_int32 b"

definition js_and :: "int \<Rightarrow> int \<Rightarrow> int" where
  "js_and a b = to_int32 a AND to_int32 b"

definition js_not :: "int \<Rightarrow> int" where
  "js_not a = NOT (to_int32 a)"

definition js_shr :: "int \<Rightarrow> nat \<Rightarrow> int" where
  "js_shr a n = drop_bit (n mod 32) (to_int32 a)"

text \<open>
  \<^verbatim>\<open>setCursor\<close> indexes a four-element array with a caller-supplied value and adds a
  caller-supplied value to the result with \<^verbatim>\<open>+\<close>. There the whole of the number type
  matters: a number is a binary64 floating-point value, so it need not be an integer, a
  sum is rounded, and \<^verbatim>\<open>undefined\<close>, \<^verbatim>\<open>NaN\<close> and the infinities can arise. A
  finite number is modelled by the rational it denotes (\<open>Num\<close>); the two zeros are not
  told apart, which no operation used here does either.
\<close>

datatype jsval = Undefined | NaN | PosInfinity | NegInfinity | Num rat

text \<open>
  Rounding a rational to binary64, ties to even: \<open>ilog2\<close> is the exponent of a positive
  rational (the integer part of its binary logarithm), the unit in the last place is
  \<open>2\<close> to the power of that exponent less 52, but no less than \<open>2\<close> to the power of
  \<open>-1074\<close> (the subnormal range), and a result of magnitude \<open>2 ^ 1024\<close> or more is
  an infinity.
\<close>

definition ilog2 :: "rat \<Rightarrow> int" where
  "ilog2 q = (if 1 \<le> q then bitlen \<lfloor>q\<rfloor> - 1 else - bitlen (\<lceil>1 / q\<rceil> - 1))"

definition pow2 :: "int \<Rightarrow> rat" where
  "pow2 e = (if 0 \<le> e then 2 ^ nat e else 1 / 2 ^ nat (- e))"

definition round_even :: "rat \<Rightarrow> int" where
  "round_even t =
    (let f = \<lfloor>t\<rfloor>; r = t - of_int f
     in if r < 1 / 2 then f else if 1 / 2 < r then f + 1 else if even f then f else f + 1)"

definition round_binary64 :: "rat \<Rightarrow> jsval" where
  "round_binary64 q =
    (if q = 0 then Num 0
     else
       let u = pow2 (max (ilog2 \<bar>q\<bar>) (- 1022) - 52);
           r = of_int (round_even (\<bar>q\<bar> / u)) * u
       in if pow2 1024 \<le> r then (if 0 < q then PosInfinity else NegInfinity)
          else Num (if 0 < q then r else - r))"

text \<open>
  The operator \<^verbatim>\<open>+\<close> on two values that are numbers or \<^verbatim>\<open>undefined\<close>:
  \<^verbatim>\<open>undefined\<close> converts to \<^verbatim>\<open>NaN\<close>, and the sum of two finite numbers is their
  exact sum rounded.
\<close>

fun js_add :: "jsval \<Rightarrow> jsval \<Rightarrow> jsval" where
  "js_add Undefined b = NaN"
| "js_add a Undefined = NaN"
| "js_add NaN b = NaN"
| "js_add a NaN = NaN"
| "js_add (Num a) (Num b) = round_binary64 (a + b)"
| "js_add PosInfinity NegInfinity = NaN"
| "js_add NegInfinity PosInfinity = NaN"
| "js_add PosInfinity b = PosInfinity"
| "js_add NegInfinity b = NegInfinity"
| "js_add a PosInfinity = PosInfinity"
| "js_add a NegInfinity = NegInfinity"

text \<open>
  ToInt32 of a value: a finite number is truncated towards zero and reduced modulo
  \<open>2 ^ 32\<close>; \<^verbatim>\<open>undefined\<close>, \<^verbatim>\<open>NaN\<close> and the infinities give 0.
\<close>

definition js_trunc :: "rat \<Rightarrow> int" where
  "js_trunc q = (if 0 \<le> q then \<lfloor>q\<rfloor> else \<lceil>q\<rceil>)"

fun ToInt32 :: "jsval \<Rightarrow> int" where
  "ToInt32 (Num q) = to_int32 (js_trunc q)"
| "ToInt32 _ = 0"

definition js_or_val :: "jsval \<Rightarrow> jsval \<Rightarrow> int" where
  "js_or_val a b = ToInt32 a OR ToInt32 b"

text \<open>
  Indexing an array of numbers with a value: an element when the value is an integer
  within the bounds, \<^verbatim>\<open>undefined\<close> for every other value (no such property).
\<close>

fun js_index :: "rat list \<Rightarrow> jsval \<Rightarrow> jsval" where
  "js_index xs (Num i) =
    (if of_int \<lfloor>i\<rfloor> = i \<and> 0 \<le> i \<and> i < of_nat (length xs) then Num (xs ! nat \<lfloor>i\<rfloor>)
     else Undefined)"
| "js_index xs _ = Undefined"

section \<open>Constants of the controller protocol\<close>

abbreviation (input) Register_instruction :: int where "Register_instruction \<equiv> 0"
abbreviation (input) Register_data :: int where "Register_data \<equiv> 1"
abbreviation (input) ReadWrite_read :: int where "ReadWrite_read \<equiv> 1"
abbreviation (input) ReadWrite_write :: int where "ReadWrite_write \<equiv> 0"

abbreviation (input) Instruction_clearDisplay :: int where "Instruction_clearDisplay \<equiv> 0x01"
abbreviation (input) Instruction_returnHome :: int where "Instruction_returnHome \<equiv> 0x02"
abbreviation (input) Instruction_setEntryMode :: int where "Instruction_setEntryMode \<equiv> 0x04"
abbreviation (input) Instruction_setDisplayControl :: int where "Instruction_setDisplayControl \<equiv> 0x08"
abbreviation (input) Instruction_setDdramAddress :: int where "Instruction_setDdramAddress \<equiv> 0x80"

abbreviation (input) DisplayControl_display :: int where "DisplayControl_display \<equiv> 0x04"
abbreviation (input) DisplayControl_cursor :: int where "DisplayControl_cursor \<equiv> 0x02"
abbreviation (input) DisplayControl_blink :: int where "DisplayControl_blink \<equiv> 0x01"

abbreviation (input) EntryMode_increment :: int where "EntryMode_increment \<equiv> 0x02"

section \<open>Callbacks, queue items and the driver state\<close>

text \<open>
  An error value is what a line hands to the callback of a write that failed; \<open>None\<close> is
  \<^verbatim>\<open>undefined\<close>, the falsy value.

  The functions that the driver passes around as callbacks are: a function of the caller
  (\<open>User\<close>, identified by a number; what it does is outside the driver), the closure
  \<^verbatim>\<open>next\<close> of \<^verbatim>\<open>_write\<close> (\<open>QueueNext\<close>), and the closure \<^verbatim>\<open>next\<close> of
  \<^verbatim>\<open>eachSeries\<close> (\<open>EachNext\<close>, with the values still to be handled and the final
  callback it closes over).
\<close>

type_synonym error = string

datatype callback = User nat | QueueNext | EachNext "16 word list" "callback option"

text \<open>
  The optional fourth argument of \<^verbatim>\<open>_write\<close> and second argument of
  \<^verbatim>\<open>_writeInstruction\<close>: absent, a number of milliseconds, or a function.
\<close>

datatype arg = Undef | Number nat | Function callback

record item =
  args_rs :: int
  args_rw :: int
  args_bits :: int
  args_delay :: "nat option"
  item_callback :: "callback option"

datatype line = Line_rs | Line_rw | Line_e | Line_p3 | Line_d4 | Line_d5 | Line_d6 | Line_d7

text \<open>
  What an observer of the driver records, in order: a request accepted by \<^verbatim>\<open>_write\<close>,
  a level written to a line, a callback called synchronously through
  \<^verbatim>\<open>invokeCallback(..., true)\<close>, a callback run by the event loop after
  \<^verbatim>\<open>setImmediate\<close>. The driver never reads this record.
\<close>

datatype obs = Enq item | Wr line int | Sync callback "error option" | Async callback "error option"

text \<open>
  The driver object (\<^verbatim>\<open>_displayControl\<close>, \<^verbatim>\<open>_queue\<close>), the variable
  \<^verbatim>\<open>activeItem\<close> of the running drain (the closure variable \<^verbatim>\<open>queue\<close> is the same
  array as \<^verbatim>\<open>_queue\<close> for as long as that drain runs), and the event loop around it:
  the functions scheduled with \<^verbatim>\<open>setImmediate\<close>, the callbacks of enable-line writes not
  yet acknowledged (each with the \<^verbatim>\<open>delay\<close> and \<^verbatim>\<open>callback\<close> its closure holds), the
  timers set with \<^verbatim>\<open>setTimeout\<close> (each with the time it is due), and the clock.
\<close>

record state =
  displayControl :: int
  queue :: "item list option"
  activeItem :: "item option"
  immediates :: "(callback \<times> error option) list"
  acks :: "(nat option \<times> callback option) list"
  timers :: "(nat \<times> callback option) list"
  clock :: nat
  trace :: "obs list"

definition init :: state where
  "init = \<lparr>displayControl = 0, queue = None, activeItem = None, immediates = [],
     acks = [], timers = [], clock = 0, trace = []\<rparr>"

definition bind :: "error + state \<Rightarrow> (state \<Rightarrow> error + state) \<Rightarrow> error + state" where
  "bind r f = (case r of Inl e \<Rightarrow> Inl e | Inr s \<Rightarrow> f s)"

section \<open>The bus transport\<close>

definition line_write :: "line \<Rightarrow> int \<Rightarrow> state \<Rightarrow> state" where
  "line_write l v s = s\<lparr>trace := trace s @ [Wr l v]\<rparr>"

text \<open>
  \<^verbatim>\<open>_processWrite\<close>: six level writes, the enable pulse, and the callback of the second
  enable write left with the line.
\<close>

definition processWrite :: "int \<Rightarrow> int \<Rightarrow> int \<Rightarrow> nat option \<Rightarrow> callback option \<Rightarrow> state \<Rightarrow> state" where
  "processWrite rs rw bits delay callback s =
    (let s = line_write Line_rs rs s;
         s = line_write Line_rw rw s;
         s = line_write Line_d7 (js_and (js_shr bits 3) 1) s;
         s = line_write Line_d6 (js_and (js_shr bits 2) 1) s;
         s = line_write Line_d5 (js_and (js_shr bits 1) 1) s;
         s = line_write Line_d4 (js_and bits 1) s;
         s = line_write Line_e 1 s;
         s = line_write Line_e 0 s
     in s\<lparr>acks := acks s @ [(delay, callback)]\<rparr>)"

section \<open>The transaction queue, callbacks and printing\<close>

text \<open>
  The functions below call each other through callbacks, as the JavaScript does; they
  are defined together. Calls nest no deeper than the final callbacks that
  \<^verbatim>\<open>eachSeries\<close> closures hold, which is what the termination measure counts.
\<close>

fun cb_depth :: "callback \<Rightarrow> nat" where
  "cb_depth (EachNext vals callback) = Suc (case callback of None \<Rightarrow> 0 | Some c \<Rightarrow> cb_depth c)"
| "cb_depth _ = 1"

definition cbo_depth :: "callback option \<Rightarrow> nat" where
  "cbo_depth callback = (case callback of None \<Rightarrow> 0 | Some c \<Rightarrow> cb_depth c)"

function call :: "callback \<Rightarrow> error option \<Rightarrow> state \<Rightarrow> error + state"
  and invokeCallback :: "callback option \<Rightarrow> error option \<Rightarrow> bool \<Rightarrow> state \<Rightarrow> error + state"
  and write_next :: "error option \<Rightarrow> state \<Rightarrow> error + state"
  and write_q :: "int \<Rightarrow> int \<Rightarrow> int \<Rightarrow> arg \<Rightarrow> callback option \<Rightarrow> state \<Rightarrow> error + state"
  and print_handler :: "16 word \<Rightarrow> callback \<Rightarrow> state \<Rightarrow> error + state"
  and eachSeries_next :: "16 word list \<Rightarrow> callback option \<Rightarrow> error option \<Rightarrow> state \<Rightarrow> error + state"
where
  "call (User i) error s = Inr s"
| "call QueueNext error s = write_next error s"
| "call (EachNext vals callback) error s = eachSeries_next vals callback error s"
| "invokeCallback callback error sync s =
    (case callback of
       None \<Rightarrow> (case error of Some e \<Rightarrow> Inl e | None \<Rightarrow> Inr s)
     | Some f \<Rightarrow>
        (if sync then call f error (s\<lparr>trace := trace s @ [Sync f error]\<rparr>)
         else Inr (s\<lparr>immediates := immediates s @ [(f, error)]\<rparr>)))"
| "write_next error s =
    bind (case activeItem s of
            Some a \<Rightarrow> invokeCallback (item_callback a) error False s
          | None \<Rightarrow> Inr s)
      (\<lambda>s. case queue s of
             Some (a # rest) \<Rightarrow>
               Inr (processWrite (args_rs a) (args_rw a) (args_bits a) (args_delay a) (Some QueueNext)
                      (s\<lparr>queue := Some rest, activeItem := Some a\<rparr>))
           | _ \<Rightarrow> Inr (s\<lparr>queue := None, activeItem := None\<rparr>))"
| "write_q rs rw bits delay callback s =
    (let callback = (case delay of Function f \<Rightarrow> Some f | _ \<Rightarrow> callback);
         delay = (case delay of Number n \<Rightarrow> Some n | _ \<Rightarrow> None);
         item = \<lparr>args_rs = rs, args_rw = rw, args_bits = bits, args_delay = delay,
                  item_callback = callback\<rparr>;
         s = s\<lparr>trace := trace s @ [Enq item]\<rparr>
     in case queue s of
          Some q \<Rightarrow> Inr (s\<lparr>queue := Some (q @ [item])\<rparr>)
        | None \<Rightarrow> write_next None (s\<lparr>queue := Some [item], activeItem := None\<rparr>))"
| "print_handler char nxt s =
    (let bits = uint char
     in bind (write_q Register_data ReadWrite_write (js_shr bits 4) Undef None s)
          (write_q Register_data ReadWrite_write bits (Function nxt) None))"
| "eachSeries_next vals callback error s =
    (if error \<noteq> None then invokeCallback callback error True s
     else if vals = [] then invokeCallback callback None True s
     else print_handler (hd vals) (EachNext (tl vals) callback) s)"
  by pat_completeness auto
termination
  by (relation "measure (\<lambda>x. case x of
        Inl (Inl (f, _)) \<Rightarrow> 10 * cb_depth f
      | Inl (Inr (Inl (callback, _, sync, _))) \<Rightarrow> (if sync then 10 * cbo_depth callback + 1 else 0)
      | Inl (Inr (Inr _)) \<Rightarrow> 1
      | Inr (Inl _) \<Rightarrow> 2
      | Inr (Inr (Inl _)) \<Rightarrow> 3
      | Inr (Inr (Inr (_, callback, _))) \<Rightarrow> 10 * cbo_depth callback + 5)")
     (auto simp: cbo_depth_def split: option.splits)

declare invokeCallback.simps [simp del] write_next.simps [simp del] write_q.simps [simp del]
  print_handler.simps [simp del] eachSeries_next.simps [simp del]

section \<open>The instruction composer and the commands\<close>

text \<open>A callback handed on in the position of the optional \<^verbatim>\<open>delay\<close> argument.\<close>

definition as_arg :: "callback option \<Rightarrow> arg" where
  "as_arg callback = (case callback of None \<Rightarrow> Undef | Some f \<Rightarrow> Function f)"

definition writeInstruction :: "int \<Rightarrow> arg \<Rightarrow> callback option \<Rightarrow> state \<Rightarrow> error + state" where
  "writeInstruction bits delay callback s =
    (let callback = (case delay of Function f \<Rightarrow> Some f | _ \<Rightarrow> callback);
         delay = (case delay of Function f \<Rightarrow> Undef | _ \<Rightarrow> delay)
     in bind (write_q Register_instruction ReadWrite_write (js_shr bits 4) delay None s)
          (write_q Register_instruction ReadWrite_write bits delay callback))"

definition setDisplayControl :: "int \<Rightarrow> bool \<Rightarrow> callback option \<Rightarrow> state \<Rightarrow> error + state" where
  "setDisplayControl control toggle callback s =
    (let s = (if toggle then s\<lparr>displayControl := js_or (displayControl s) control\<rparr>
              else s\<lparr>displayControl := js_and (displayControl s) (js_not control)\<rparr>)
     in writeInstruction (js_or Instruction_setDisplayControl (displayControl s))
          (as_arg callback) None s)"

definition clear :: "callback option \<Rightarrow> state \<Rightarrow> error + state" where
  "clear callback s = writeInstruction Instruction_clearDisplay (Number 10) callback s"

definition eachSeries :: "16 word list \<Rightarrow> callback option \<Rightarrow> state \<Rightarrow> error + state" where
  "eachSeries vals callback s = eachSeries_next vals callback None s"

text \<open>
  \<^verbatim>\<open>print\<close>: the text is its list of UTF-16 code units, which is what
  \<^verbatim>\<open>text.split('')\<close> and \<^verbatim>\<open>charCodeAt(0)\<close> give.
\<close>

definition print :: "16 word list \<Rightarrow> callback option \<Rightarrow> state \<Rightarrow> error + state" where
  "print text callback s = eachSeries text callback s"

definition blinkOn :: "callback option \<Rightarrow> state \<Rightarrow> error + state" where
  "blinkOn callback s = setDisplayControl DisplayControl_blink True callback s"

definition blinkOff :: "callback option \<Rightarrow> state \<Rightarrow> error + state" where
  "blinkOff callback s = setDisplayControl DisplayControl_blink False callback s"

definition cursorOn :: "callback option \<Rightarrow> state \<Rightarrow> error + state" where
  "cursorOn callback s = setDisplayControl DisplayControl_cursor True callback s"

definition cursorOff :: "callback option \<Rightarrow> state \<Rightarrow> error + state" where
  "cursorOff callback s = setDisplayControl DisplayControl_cursor False callback s"

definition turnOn :: "callback option \<Rightarrow> state \<Rightarrow> error + state" where
  "turnOn callback s = setDisplayControl DisplayControl_display True callback s"

definition turnOff :: "callback option \<Rightarrow> state \<Rightarrow> error + state" where
  "turnOff callback s = setDisplayControl DisplayControl_display False callback s"

definition setCursor :: "jsval \<Rightarrow> jsval \<Rightarrow> callback option \<Rightarrow> state \<Rightarrow> error + state" where
  "setCursor x y callback s =
    (let ys = [0x00, 0x40, 0x14, 0x54];
         bits = js_or_val (Num (of_int Instruction_setDdramAddress)) (js_add (js_index ys y) x)
     in writeInstruction bits (as_arg callback) None s)"

text \<open>
  \<^verbatim>\<open>attach\<close>, with the eight lines of \<^verbatim>\<open>inputs\<close> present; \<open>nxt\<close> is the
  callback the framework passes.
\<close>

definition attach :: "callback option \<Rightarrow> state \<Rightarrow> error + state" where
  "attach nxt s =
    (let s = s\<lparr>displayControl := 0x00\<rparr>;
         s = line_write Line_p3 1 s
     in bind (writeInstruction 0x38 Undef None s) (\<lambda>s.
        bind (write_q Register_instruction ReadWrite_write 0x2 Undef None s) (\<lambda>s.
        bind (writeInstruction 0x28 Undef None s) (\<lambda>s.
        bind (turnOn None s) (\<lambda>s.
        bind (clear None s) (\<lambda>s.
        bind (writeInstruction (js_or Instruction_setEntryMode EntryMode_increment) Undef None s) (\<lambda>s.
        writeInstruction Instruction_returnHome (as_arg nxt) None s)))))))"

definition detach :: "state \<Rightarrow> error + state" where
  "detach s = turnOff None s"

section \<open>The event loop\<close>

text \<open>
  What can happen next: a caller calls a method of the driver (its callbacks are its own
  functions), the enable line acknowledges the oldest unacknowledged write (with the
  outcome it reports to the callback), a timer that is due fires, the event loop runs
  the oldest function scheduled with \<^verbatim>\<open>setImmediate\<close>, time passes. An event that
  is not possible in a state (no write to acknowledge, no timer due, nothing scheduled)
  leaves the state as it is. A task that throws ends the run with the error.
  Callers call the commands, \<^verbatim>\<open>_writeInstruction\<close> and \<^verbatim>\<open>_write\<close>;
  \<^verbatim>\<open>_processWrite\<close> is called by the queue only. A line is taken to report the
  outcome of a write to the callback of that write, and not to throw.
\<close>

datatype api =
    Attach "nat option"
  | Detach
  | Clear "nat option"
  | Print "16 word list" "nat option"
  | BlinkOn "nat option"
  | BlinkOff "nat option"
  | CursorOn "nat option"
  | CursorOff "nat option"
  | TurnOn "nat option"
  | TurnOff "nat option"
  | SetCursor jsval jsval "nat option"
  | WriteInstruction int "nat option" "nat option"
  | Write int int int "nat option" "nat option"

datatype event = Call api | Ack "error option" | Timeout | Immediate | Tick nat

definition user :: "nat option \<Rightarrow> callback option" where
  "user cb = map_option User cb"

definition number :: "nat option \<Rightarrow> arg" where
  "number d = (case d of None \<Rightarrow> Undef | Some n \<Rightarrow> Number n)"

fun api_call :: "api \<Rightarrow> state \<Rightarrow> error + state" where
  "api_call (Attach cb) s = attach (user cb) s"
| "api_call Detach s = detach s"
| "api_call (Clear cb) s = clear (user cb) s"
| "api_call (Print text cb) s = print text (user cb) s"
| "api_call (BlinkOn cb) s = blinkOn (user cb) s"
| "api_call (BlinkOff cb) s = blinkOff (user cb) s"
| "api_call (CursorOn cb) s = cursorOn (user cb) s"
| "api_call (CursorOff cb) s = cursorOff (user cb) s"
| "api_call (TurnOn cb) s = turnOn (user cb) s"
| "api_call (TurnOff cb) s = turnOff (user cb) s"
| "api_call (SetCursor x y cb) s = setCursor x y (user cb) s"
| "api_call (WriteInstruction bits d cb) s = writeInstruction bits (number d) (user cb) s"
| "api_call (Write rs rw bits d cb) s = write_q rs rw bits (number d) (user cb) s"

text \<open>The function \<^verbatim>\<open>done\<close> inside \<^verbatim>\<open>_processWrite\<close>.\<close>

definition processWrite_done :: "callback option \<Rightarrow> state \<Rightarrow> error + state" where
  "processWrite_done callback s = invokeCallback callback None True s"

text \<open>
  The callback of the second enable write takes no parameter: whatever the line reports
  is dropped there.
\<close>

definition enable_written :: "error option \<Rightarrow> nat option \<Rightarrow> callback option \<Rightarrow> state \<Rightarrow> error + state" where
  "enable_written outcome delay callback s =
    (case delay of
       Some d \<Rightarrow> Inr (s\<lparr>timers := timers s @ [(clock s + d, callback)]\<rparr>)
     | None \<Rightarrow> processWrite_done callback s)"

fun step :: "event \<Rightarrow> state \<Rightarrow> error + state" where
  "step (Call c) s = api_call c s"
| "step (Ack outcome) s =
    (case acks s of
       [] \<Rightarrow> Inr s
     | (delay, callback) # rest \<Rightarrow> enable_written outcome delay callback (s\<lparr>acks := rest\<rparr>))"
| "step Timeout s =
    (case List.find (\<lambda>t. fst t \<le> clock s) (timers s) of
       None \<Rightarrow> Inr s
     | Some t \<Rightarrow> processWrite_done (snd t) (s\<lparr>timers := remove1 t (timers s)\<rparr>))"
| "step Immediate s =
    (case immediates s of
       [] \<Rightarrow> Inr s
     | (f, error) # rest \<Rightarrow>
         call f error (s\<lparr>immediates := rest, trace := trace s @ [Async f error]\<rparr>))"
| "step (Tick n) s = Inr (s\<lparr>clock := clock s + n\<rparr>)"

fun run :: "event list \<Rightarrow> state \<Rightarrow> error + state" where
  "run [] s = Inr s"
| "run (e # es) s = (case step e s of Inl x \<Rightarrow> Inl x | Inr s' \<Rightarrow> run es s')"

section \<open>Notions used to state the properties\<close>

text \<open>
  The item that \<^verbatim>\<open>_write\<close> builds from its arguments, and what accepting it does to
  the driver: appended to the backlog when a drain is running, started on the bus at once
  when none is.
\<close>

definition request :: "int \<Rightarrow> int \<Rightarrow> int \<Rightarrow> arg \<Rightarrow> callback option \<Rightarrow> item" where
  "request rs rw bits delay callback =
    \<lparr>args_rs = rs, args_rw = rw, args_bits = bits,
     args_delay = (case delay of Number n \<Rightarrow> Some n | _ \<Rightarrow> None),
     item_callback = (case delay of Function f \<Rightarrow> Some f | _ \<Rightarrow> callback)\<rparr>"

definition accept :: "item \<Rightarrow> state \<Rightarrow> state" where
  "accept it s =
    (case queue s of
       Some q \<Rightarrow> s\<lparr>trace := trace s @ [Enq it], queue := Some (q @ [it])\<rparr>
     | None \<Rightarrow>
        processWrite (args_rs it) (args_rw it) (args_bits it) (args_delay it) (Some QueueNext)
          (s\<lparr>trace := trace s @ [Enq it], queue := Some [], activeItem := Some it\<rparr>))"

definition pending :: "state \<Rightarrow> item list" where
  "pending s = (case activeItem s of None \<Rightarrow> [] | Some a \<Rightarrow> [a]) @ (case queue s of None \<Rightarrow> [] | Some q \<Rightarrow> q)"

fun callbacks :: "item list \<Rightarrow> callback list" where
  "callbacks [] = []"
| "callbacks (it # its) = (case item_callback it of None \<Rightarrow> callbacks its | Some f \<Rightarrow> f # callbacks its)"

definition pipeline :: "state \<Rightarrow> callback list" where
  "pipeline s = map fst (immediates s) @ callbacks (pending s)"

fun fired :: "obs list \<Rightarrow> callback list" where
  "fired [] = []"
| "fired (Async f e # tr) = f # fired tr"
| "fired (_ # tr) = fired tr"

fun enqueued :: "obs list \<Rightarrow> item list" where
  "enqueued [] = []"
| "enqueued (Enq it # tr) = it # enqueued tr"
| "enqueued (_ # tr) = enqueued tr"

text \<open>The errors that callbacks have been called with.\<close>

fun faults :: "obs list \<Rightarrow> error list" where
  "faults [] = []"
| "faults (Sync f (Some e) # tr) = e # faults tr"
| "faults (Async f (Some e) # tr) = e # faults tr"
| "faults (_ # tr) = faults tr"

definition outstanding :: "state \<Rightarrow> nat" where
  "outstanding s = length (acks s) + length (timers s)"

definition wf_cb :: "callback \<Rightarrow> bool" where
  "wf_cb f = (case f of User i \<Rightarrow> True | QueueNext \<Rightarrow> False
     | EachNext vals cb \<Rightarrow> (case cb of None \<Rightarrow> True | Some (User i) \<Rightarrow> True | Some _ \<Rightarrow> False))"

definition flight :: "state \<Rightarrow> bool" where
  "flight s = (case activeItem s of
      None \<Rightarrow> queue s = None \<and> acks s = [] \<and> timers s = []
    | Some a \<Rightarrow> queue s \<noteq> None \<and>
        (acks s = [(args_delay a, Some QueueNext)] \<and> timers s = [] \<or>
         acks s = [] \<and>
         (\<exists>due d. timers s = [(due, Some QueueNext)] \<and> args_delay a = Some d \<and>
            due \<le> clock s + d)))"

definition common :: "state \<Rightarrow> bool" where
  "common s \<longleftrightarrow>
     (\<forall>x \<in> set (immediates s). wf_cb (fst x) \<and> snd x = None) \<and>
     (\<forall>f \<in> set (callbacks (pending s)). wf_cb f) \<and>
     fired (trace s) @ pipeline s = callbacks (enqueued (trace s)) \<and>
     faults (trace s) = []"

definition inv_state :: "state \<Rightarrow> bool" where
  "inv_state s \<longleftrightarrow> flight s \<and> common s"

text \<open>The record of a call that returned, and nothing for a call that threw.\<close>

definition trace_of :: "error + state \<Rightarrow> obs list" where
  "trace_of r = (case r of Inl e \<Rightarrow> [] | Inr s \<Rightarrow> trace s)"

text \<open>
  The value that the four data lines carry after \<^verbatim>\<open>_processWrite\<close> has written
  them, \<^verbatim>\<open>d7\<close> as the most significant bit.
\<close>

definition nibble :: "int \<Rightarrow> int" where
  "nibble bits = 8 * js_and (js_shr bits 3) 1 + 4 * js_and (js_shr bits 2) 1 +
     2 * js_and (js_shr bits 1) 1 + js_and bits 1"

text \<open>
  What the controller latches: at each falling edge of the enable line, the levels of
  the register-select line, the read/write line and the four data lines at that moment.
  \<open>levels\<close> gives the level of each line after a record, from the levels before it.
\<close>

fun levels :: "(line \<Rightarrow> int) \<Rightarrow> obs list \<Rightarrow> line \<Rightarrow> int" where
  "levels lv [] = lv"
| "levels lv (Wr l v # tr) = levels (lv(l := v)) tr"
| "levels lv (_ # tr) = levels lv tr"

fun latched :: "(line \<Rightarrow> int) \<Rightarrow> obs list \<Rightarrow> (int \<times> int \<times> int) list" where
  "latched lv [] = []"
| "latched lv (Wr l v # tr) =
    (if l = Line_e \<and> v = 0 \<and> lv Line_e = 1
     then [(lv Line_rs, lv Line_rw, 8 * lv Line_d7 + 4 * lv Line_d6 + 2 * lv Line_d5 + lv Line_d4)]
     else []) @ latched (lv(l := v)) tr"
| "latched lv (_ # tr) = latched lv tr"

text \<open>The two requests that \<^verbatim>\<open>_writeInstruction\<close> hands to \<^verbatim>\<open>_write\<close>.\<close>

definition byte_items :: "int \<Rightarrow> arg \<Rightarrow> callback option \<Rightarrow> item list" where
  "byte_items bits delay callback =
    [\<lparr>args_rs = Register_instruction, args_rw = ReadWrite_write, args_bits = js_shr bits 4,
      args_delay = (case delay of Number n \<Rightarrow> Some n | _ \<Rightarrow> None), item_callback = None\<rparr>,
     \<lparr>args_rs = Register_instruction, args_rw = ReadWrite_write, args_bits = bits,
      args_delay = (case delay of Number n \<Rightarrow> Some n | _ \<Rightarrow> None),
      item_callback = (case delay of Function f \<Rightarrow> Some f | _ \<Rightarrow> callback)\<rparr>]"

text \<open>
  The display-control state is a mask of three bits; the six toggling commands with the
  bit each one sets or clears.
\<close>

definition mask_ok :: "state \<Rightarrow> bool" where
  "mask_ok s \<longleftrightarrow> 0 \<le> displayControl s \<and> displayControl s < 8"

definition toggles :: "((callback option \<Rightarrow> state \<Rightarrow> error + state) \<times> int \<times> bool) list" where
  "toggles = [(turnOn, DisplayControl_display, True), (turnOff, DisplayControl_display, False),
     (cursorOn, DisplayControl_cursor, True), (cursorOff, DisplayControl_cursor, False),
     (blinkOn, DisplayControl_blink, True), (blinkOff, DisplayControl_blink, False)]"

text \<open>
  The row base addresses as the specification lists them (row 0 at \<open>0x00\<close>, row 1 at
  \<open>0x40\<close>, row 2 at \<open>0x14\<close>, row 3 at \<open>0x54\<close>), to compare with the array that
  \<^verbatim>\<open>setCursor\<close> indexes.
\<close>

definition spec_row_base :: "int \<Rightarrow> int" where
  "spec_row_base y = (if y = 0 then 0x00 else if y = 1 then 0x40 else if y = 2 then 0x14 else 0x54)"

text \<open>
  How often \<^verbatim>\<open>done\<close> has signalled the completion of a transaction to the queue, and
  the levels written to the lines of the bus (all lines but the backlight).
\<close>

fun signaled :: "obs list \<Rightarrow> nat" where
  "signaled [] = 0"
| "signaled (Sync QueueNext e # tr) = Suc (signaled tr)"
| "signaled (_ # tr) = signaled tr"

fun bus_writes :: "obs list \<Rightarrow> (line \<times> int) list" where
  "bus_writes [] = []"
| "bus_writes (Wr l v # tr) = (if l = Line_p3 then [] else [(l, v)]) @ bus_writes tr"
| "bus_writes (_ # tr) = bus_writes tr"



text \<open>
  The events that serve the requests in the driver, one after the other, when the enable
  line reports \<open>outcome\<close> for every write: the acknowledgement, and where a settle delay
  was asked for, the passing of that time and the timeout.
\<close>

fun drain :: "error option \<Rightarrow> item list \<Rightarrow> event list" where
  "drain outcome [] = []"
| "drain outcome (a # rest) =
    Ack outcome # (case args_delay a of None \<Rightarrow> [] | Some d \<Rightarrow> [Tick d, Timeout]) @
    drain outcome rest"

text \<open>The notifiers that the event loop has run, each with the error it was given.\<close>

fun notified :: "obs list \<Rightarrow> (callback \<times> error option) list" where
  "notified [] = []"
| "notified (Async f e # tr) = (f, e) # notified tr"
| "notified (_ # tr) = notified tr"

text \<open>What the controller latches when the request is carried out.\<close>

definition nibble_of :: "item \<Rightarrow> int \<times> int \<times> int" where
  "nibble_of a = (args_rs a, args_rw a, args_bits a mod 16)"

text \<open>
  A driver at rest: nothing queued, nothing in flight, nothing scheduled.
\<close>

definition quiescent :: "state \<Rightarrow> bool" where
  "quiescent s \<longleftrightarrow> queue s = None \<and> activeItem s = None \<and> immediates s = [] \<and>
     acks s = [] \<and> timers s = []"











section \<open>The queue discipline\<close>

lemma callbacks_append [simp]: "callbacks (xs @ ys) = callbacks xs @ callbacks ys"
  by (induction xs) (auto split: option.splits)

lemma fired_append [simp]: "fired (xs @ ys) = fired xs @ fired ys"
  by (induction xs rule: fired.induct) auto

lemma enqueued_append [simp]: "enqueued (xs @ ys) = enqueued xs @ enqueued ys"
  by (induction xs rule: enqueued.induct) auto

lemma faults_append [simp]: "faults (xs @ ys) = faults xs @ faults ys"
  by (induction xs rule: faults.induct) auto

lemma write_q_accept:
  "write_q rs rw bits delay callback s = Inr (accept (request rs rw bits delay callback) s)"
  by (simp add: write_q.simps write_next.simps accept_def request_def Let_def bind_def
      split: option.splits)

lemma writeInstruction_accept:
  "writeInstruction bits delay callback s =
     Inr (accept (request 0 0 bits (case delay of Function f \<Rightarrow> Undef | _ \<Rightarrow> delay)
                    (case delay of Function f \<Rightarrow> Some f | _ \<Rightarrow> callback))
         (accept (request 0 0 (js_shr bits 4) (case delay of Function f \<Rightarrow> Undef | _ \<Rightarrow> delay) None) s))"
  by (simp add: writeInstruction_def write_q_accept bind_def Let_def)

lemma processWrite_fields [simp]:
  "displayControl (processWrite rs rw bits d cb s) = displayControl s"
  "queue (processWrite rs rw bits d cb s) = queue s"
  "activeItem (processWrite rs rw bits d cb s) = activeItem s"
  "immediates (processWrite rs rw bits d cb s) = immediates s"
  "acks (processWrite rs rw bits d cb s) = acks s @ [(d, cb)]"
  "timers (processWrite rs rw bits d cb s) = timers s"
  "clock (processWrite rs rw bits d cb s) = clock s"
  "fired (trace (processWrite rs rw bits d cb s)) = fired (trace s)"
  "enqueued (trace (processWrite rs rw bits d cb s)) = enqueued (trace s)"
  "faults (trace (processWrite rs rw bits d cb s)) = faults (trace s)"
  by (simp_all add: processWrite_def line_write_def Let_def)

lemma inv_accept:
  assumes "inv_state s" and "case item_callback it of None \<Rightarrow> True | Some f \<Rightarrow> wf_cb f"
  shows "inv_state (accept it s)"
  using assms
  by (auto simp: inv_state_def flight_def common_def accept_def pending_def pipeline_def
      split: option.splits)

lemma inv_frame [simp]:
  "inv_state (s\<lparr>displayControl := x\<rparr>) = inv_state s"
  "inv_state (line_write l v s) = inv_state s"
  by (auto simp: inv_state_def flight_def common_def pending_def pipeline_def line_write_def
      split: option.splits)

lemma inv_tick: "inv_state s \<Longrightarrow> inv_state (s\<lparr>clock := clock s + n\<rparr>)"
  by (auto simp: inv_state_def flight_def common_def pending_def pipeline_def
      split: option.splits)

lemma done_next:
  assumes "common s" and "activeItem s = Some a" and "queue s = Some q"
    and "acks s = []" and "timers s = []"
  shows "\<exists>s'. processWrite_done (Some QueueNext) s = Inr s' \<and> inv_state s'"
  using assms
  by (cases q)
     (auto simp: processWrite_done_def invokeCallback.simps write_next.simps bind_def
        inv_state_def flight_def common_def pending_def pipeline_def
        split: option.splits)

lemma inv_sync [simp]: "inv_state (s\<lparr>trace := trace s @ [Sync f None]\<rparr>) = inv_state s"
  by (auto simp: inv_state_def flight_def common_def pending_def pipeline_def
      split: option.splits)

lemma print_handler_accept:
  "print_handler char nxt s =
     Inr (accept (request 1 0 (uint char) (Function nxt) None)
         (accept (request 1 0 (js_shr (uint char) 4) Undef None) s))"
  by (simp add: print_handler.simps write_q_accept bind_def Let_def)

lemma eachSeries_next_inv:
  assumes "inv_state s" and "wf_cb (EachNext vals cb)"
  shows "\<exists>s'. eachSeries_next vals cb None s = Inr s' \<and> inv_state s'"
proof (cases vals)
  case Nil
  with assms show ?thesis
    by (auto simp: eachSeries_next.simps invokeCallback.simps wf_cb_def
        split: option.splits callback.splits)
next
  case (Cons v vs)
  have "wf_cb (EachNext vs cb)"
    using assms(2) by (simp add: wf_cb_def)
  then have "inv_state (accept (request 1 0 (uint v) (Function (EachNext vs cb)) None)
         (accept (request 1 0 (js_shr (uint v) 4) Undef None) s))"
    using assms(1) by (intro inv_accept) (simp_all add: request_def)
  with Cons show ?thesis
    by (simp add: eachSeries_next.simps print_handler_accept)
qed

lemma call_inv:
  assumes "inv_state s" and "wf_cb f"
  shows "\<exists>s'. call f None s = Inr s' \<and> inv_state s'"
proof (cases f)
  case (User i)
  with assms show ?thesis by simp
next
  case QueueNext
  with assms show ?thesis by (simp add: wf_cb_def)
next
  case (EachNext vals cb)
  with assms eachSeries_next_inv [of s vals cb] show ?thesis by simp
qed

lemma writeInstruction_inv:
  assumes "inv_state s"
    and "case delay of Function f \<Rightarrow> wf_cb f | _ \<Rightarrow> True"
    and "case callback of Some f \<Rightarrow> wf_cb f | _ \<Rightarrow> True"
  shows "\<exists>s'. writeInstruction bits delay callback s = Inr s' \<and> inv_state s'"
  using assms
  by (auto simp: writeInstruction_accept request_def intro!: inv_accept split: arg.splits option.splits)

lemma wf_user [simp]: "(case user cb of None \<Rightarrow> True | Some f \<Rightarrow> wf_cb f)"
  by (simp add: user_def wf_cb_def split: option.splits)

lemma setDisplayControl_inv:
  assumes "inv_state s" and "case callback of None \<Rightarrow> True | Some f \<Rightarrow> wf_cb f"
  shows "\<exists>s'. setDisplayControl control toggle callback s = Inr s' \<and> inv_state s'"
  unfolding setDisplayControl_def Let_def
  by (rule writeInstruction_inv) (use assms in \<open>auto simp: as_arg_def split: option.splits\<close>)

lemma bind_Inr [simp]: "bind (Inr s) f = f s"
  by (simp add: bind_def)

lemma clear_inv:
  assumes "inv_state s"
  shows "\<exists>s'. clear (user cb) s = Inr s' \<and> inv_state s'"
  unfolding clear_def
  by (rule writeInstruction_inv) (use assms in \<open>auto simp: user_def wf_cb_def split: option.splits\<close>)

lemma attach_inv:
  assumes "inv_state s"
  shows "\<exists>s'. attach (user cb) s = Inr s' \<and> inv_state s'"
  using assms
  by (auto simp: attach_def Let_def writeInstruction_accept write_q_accept turnOn_def
      setDisplayControl_def clear_def request_def as_arg_def user_def wf_cb_def
      intro!: inv_accept split: option.splits)

lemma api_call_inv:
  assumes "inv_state s"
  shows "\<exists>s'. api_call c s = Inr s' \<and> inv_state s'"
proof (cases c)
  case (Print str cb)
  then show ?thesis
    using eachSeries_next_inv [OF assms, of str "user cb"]
    by (auto simp: print_def eachSeries_def wf_cb_def user_def split: option.splits)
next
  case (SetCursor x y cb)
  have "\<exists>s'. setCursor x y (user cb) s = Inr s' \<and> inv_state s'"
    unfolding setCursor_def Let_def
    by (intro writeInstruction_inv) (use assms in \<open>auto simp: user_def as_arg_def wf_cb_def split: option.splits\<close>)
  with SetCursor show ?thesis by simp
next
  case (WriteInstruction bits d cb)
  have "\<exists>s'. writeInstruction bits (number d) (user cb) s = Inr s' \<and> inv_state s'"
    by (intro writeInstruction_inv) (use assms in \<open>auto simp: user_def number_def wf_cb_def split: option.splits\<close>)
  with WriteInstruction show ?thesis by simp
next
  case (Write rs rw bits d cb)
  then show ?thesis
    using assms
    by (auto simp: write_q_accept request_def user_def number_def wf_cb_def intro!: inv_accept split: option.splits)
qed (use assms in \<open>simp_all add: detach_def blinkOn_def blinkOff_def cursorOn_def cursorOff_def
      turnOn_def turnOff_def setDisplayControl_inv clear_inv attach_inv\<close>)

lemma step_inv:
  assumes "inv_state s"
  shows "\<exists>s'. step e s = Inr s' \<and> inv_state s'"
proof (cases e)
  case (Call c)
  with api_call_inv [OF assms] show ?thesis by simp
next
  case (Ack outcome)
  show ?thesis
  proof (cases "acks s")
    case Nil
    with Ack assms show ?thesis by simp
  next
    case (Cons p rest)
    then obtain a where a: "activeItem s = Some a" "acks s = [(args_delay a, Some QueueNext)]"
      "timers s = []" "queue s \<noteq> None"
      using assms by (auto simp: inv_state_def flight_def split: option.splits)
    show ?thesis
    proof (cases "args_delay a")
      case None
      have "\<exists>s'. processWrite_done (Some QueueNext) (s\<lparr>acks := []\<rparr>) = Inr s' \<and> inv_state s'"
        using assms a
        by (intro done_next [where a = a and q = "the (queue s)"])
           (auto simp: inv_state_def common_def pending_def pipeline_def)
      with Ack a None show ?thesis by (simp add: enable_written_def)
    next
      case (Some d)
      with Ack a assms show ?thesis
        by (auto simp: enable_written_def inv_state_def flight_def common_def pending_def pipeline_def
            split: option.splits)
    qed
  qed
next
  case Timeout
  show ?thesis
  proof (cases "List.find (\<lambda>t. fst t \<le> clock s) (timers s)")
    case None
    with Timeout assms show ?thesis by simp
  next
    case (Some t)
    then have "t \<in> set (timers s)"
      by (auto simp: find_Some_iff)
    then obtain a where a: "activeItem s = Some a" "acks s = []"
      "timers s = [t]" "queue s \<noteq> None" "snd t = Some QueueNext"
      using assms by (auto simp: inv_state_def flight_def split: option.splits)
    have "\<exists>s'. processWrite_done (Some QueueNext) (s\<lparr>timers := []\<rparr>) = Inr s' \<and> inv_state s'"
      using assms a
      by (intro done_next [where a = a and q = "the (queue s)"])
         (auto simp: inv_state_def common_def pending_def pipeline_def)
    with Timeout Some a show ?thesis by simp
  qed
next
  case Immediate
  show ?thesis
  proof (cases "immediates s")
    case Nil
    with Immediate assms show ?thesis by simp
  next
    case (Cons p rest)
    obtain f err where p: "p = (f, err)" by (cases p)
    have f: "wf_cb f" "err = None"
      using assms Cons p by (auto simp: inv_state_def common_def)
    have "inv_state (s\<lparr>immediates := rest, trace := trace s @ [Async f err]\<rparr>)"
      using assms Cons p
      by (auto simp: inv_state_def flight_def common_def pending_def pipeline_def split: option.splits)
    from call_inv [OF this f(1)] Immediate Cons p f(2) show ?thesis by simp
  qed
next
  case (Tick n)
  with inv_tick [OF assms] show ?thesis by simp
qed

lemma run_inv:
  assumes "inv_state s"
  shows "\<exists>s'. run es s = Inr s' \<and> inv_state s'"
  using assms
proof (induction es arbitrary: s)
  case Nil
  then show ?case by simp
next
  case (Cons e es)
  from step_inv [OF Cons.prems, of e] obtain s1 where "step e s = Inr s1" "inv_state s1"
    by blast
  with Cons.IH [of s1] show ?case by simp
qed

lemma inv_init: "inv_state init"
  by (simp add: inv_state_def flight_def common_def pending_def pipeline_def init_def)


section \<open>Facts about accepted requests and about the data lines\<close>

lemma enqueued_accept [simp]: "enqueued (trace (accept it s)) = enqueued (trace s) @ [it]"
  by (simp add: accept_def split: option.splits)

lemma pending_accept: "flight s \<Longrightarrow> pending (accept it s) = pending s @ [it]"
  by (auto simp: accept_def pending_def flight_def split: option.splits)

lemma flight_accept: "flight s \<Longrightarrow> flight (accept it s)"
  by (auto simp: accept_def flight_def split: option.splits)

lemma reachable_inv: "run es init = Inr s \<Longrightarrow> inv_state s"
  using run_inv [OF inv_init, of es] by auto

lemma reachable_flight: "run es init = Inr s \<Longrightarrow> flight s"
  using reachable_inv [of es s] by (simp add: inv_state_def)

lemma bit_to_int32: "n < 32 \<Longrightarrow> bit (to_int32 b) n = bit b n"
  by (cases "n = 31") (auto simp: to_int32_def bit_signed_take_bit_iff min_def)

lemma to_int32_1 [simp]: "to_int32 1 = 1"
  by (simp add: to_int32_def)

lemma js_and_1: "js_and a 1 = of_bool (bit a 0)"
proof -
  have "js_and a 1 = of_bool (odd (to_int32 a))"
    by (simp add: js_and_def and_one_eq mod_2_eq_odd)
  also have "odd (to_int32 a) = bit (to_int32 a) 0"
    by (simp add: bit_0)
  also have "\<dots> = bit a 0"
    by (simp add: bit_to_int32)
  finally show ?thesis .
qed

lemma line_bit: "n < 32 \<Longrightarrow> js_and (js_shr b n) 1 = of_bool (bit b n)"
  by (simp add: js_and_1 js_shr_def bit_drop_bit_eq bit_to_int32)

lemma of_bool_odd: "of_bool (odd (a::int)) = a mod 2"
  by (simp add: of_bool_def mod_2_eq_odd)

lemma nibble_eq: "nibble bits = bits mod 16"
proof -
  have "nibble bits = 8 * (bits div 8 mod 2) + 4 * (bits div 4 mod 2) +
      2 * (bits div 2 mod 2) + bits mod 2"
    unfolding nibble_def
    using line_bit [where n = 3 and b = bits] line_bit [where n = 2 and b = bits]
      line_bit [where n = 1 and b = bits] js_and_1 [of bits]
    by (simp add: bit_iff_odd of_bool_odd [symmetric])
  moreover have "bits mod 16 = 8 * (bits div 8 mod 2) + bits mod 8"
    using zmod_zmult2_eq [of 2 bits 8] by simp
  moreover have "bits mod 8 = 4 * (bits div 4 mod 2) + bits mod 4"
    using zmod_zmult2_eq [of 2 bits 4] by simp
  moreover have "bits mod 4 = 2 * (bits div 2 mod 2) + bits mod 2"
    using zmod_zmult2_eq [of 2 bits 2] by simp
  ultimately show ?thesis by simp
qed

lemma shr4_mod16: "js_shr bits 4 mod 16 = bits div 16 mod 16"
proof -
  have "take_bit 4 (drop_bit 4 (to_int32 bits)) = take_bit 4 (drop_bit 4 bits)"
    by (rule bit_eqI) (auto simp: bit_take_bit_iff bit_drop_bit_eq bit_to_int32)
  then show ?thesis
    by (simp add: js_shr_def take_bit_eq_mod drop_bit_eq_div)
qed

lemma pending_init [simp]: "pending init = []"
  by (simp add: pending_def init_def)

lemma trace_init [simp]: "trace init = []"
  by (simp add: init_def)

lemma latched_append: "latched lv (xs @ ys) = latched lv xs @ latched (levels lv xs) ys"
proof (induction xs arbitrary: lv)
  case Nil
  show ?case by simp
next
  case (Cons x xs)
  then show ?case by (cases x) (simp_all add: fun_upd_def)
qed

lemma bit_js_shr0: "n < 32 \<Longrightarrow> bit (js_shr b n) 0 = bit b n"
  by (simp add: js_shr_def bit_drop_bit_eq bit_to_int32)

lemma trace_processWrite:
  "trace (processWrite rs rw bits delay callback s) =
     trace s @ [Wr Line_rs rs, Wr Line_rw rw, Wr Line_d7 (js_and (js_shr bits 3) 1),
       Wr Line_d6 (js_and (js_shr bits 2) 1), Wr Line_d5 (js_and (js_shr bits 1) 1),
       Wr Line_d4 (js_and bits 1), Wr Line_e 1, Wr Line_e 0]"
  by (simp add: processWrite_def line_write_def Let_def)

lemma latched_processWrite:
  "latched lv (trace (processWrite rs rw bits delay callback s)) =
     latched lv (trace s) @ [(rs, rw, bits mod 16)]"
  by (simp add: trace_processWrite latched_append nibble_eq [symmetric] nibble_def)

text \<open>Rules that unfold the commands and the event loop on a given run.\<close>

lemmas run_eval = init_def writeInstruction_def write_q.simps write_next.simps invokeCallback.simps
  eachSeries_next.simps print_handler.simps bind_def
  user_def number_def as_arg_def enable_written_def processWrite_done_def Let_def
  setDisplayControl_def clear_def eachSeries_def print_def blinkOn_def blinkOff_def cursorOn_def
  cursorOff_def turnOn_def turnOff_def setCursor_def attach_def detach_def trace_of_def

section \<open>The display-control mask\<close>

lemma mask_values: "0 \<le> (m::int) \<Longrightarrow> m < 8 \<Longrightarrow> m \<in> {0, 1, 2, 3, 4, 5, 6, 7}"
  by auto

lemma mask_ops:
  assumes "0 \<le> m" "m < 8" "c \<in> {1, 2, 4}"
  shows "js_or m c = m OR c" "js_and m (js_not c) = m AND NOT c"
    "0 \<le> m OR c" "m OR c < 8" "0 \<le> m AND NOT c" "m AND NOT c < 8"
    "js_or 8 m = 8 OR m"
  using mask_values [OF assms(1,2)] assms(3)
  by (auto simp: js_or_def js_and_def js_not_def to_int32_def)

lemma js_or_8: "0 \<le> m \<Longrightarrow> m < 8 \<Longrightarrow> js_or 8 m = 8 OR m"
  using mask_values [of m] by (auto simp: js_or_def to_int32_def)

lemma flight_displayControl [simp]: "flight (s\<lparr>displayControl := x\<rparr>) = flight s"
  by (simp add: flight_def split: option.splits)

lemma pending_displayControl [simp]: "pending (s\<lparr>displayControl := x\<rparr>) = pending s"
  by (simp add: pending_def)

lemma displayControl_line_write [simp]: "displayControl (line_write l v s) = displayControl s"
  by (simp add: line_write_def)

lemma displayControl_accept [simp]: "displayControl (accept it s) = displayControl s"
  by (simp add: accept_def split: option.splits)

lemma displayControl_done:
  "processWrite_done (Some QueueNext) s = Inr s' \<Longrightarrow> displayControl s' = displayControl s"
  by (auto simp: processWrite_done_def invokeCallback.simps write_next.simps bind_def
      split: option.splits list.splits)

lemma displayControl_call:
  assumes "wf_cb f" and "call f e s = Inr s'"
  shows "displayControl s' = displayControl s"
proof (cases f)
  case (User i)
  with assms show ?thesis by simp
next
  case QueueNext
  with assms show ?thesis by (simp add: wf_cb_def)
next
  case (EachNext vals cb)
  with assms show ?thesis
    by (cases vals)
       (auto simp: wf_cb_def eachSeries_next.simps invokeCallback.simps print_handler_accept
          split: option.splits callback.splits if_splits)
qed

lemma setDisplayControl_accept:
  "setDisplayControl control toggle callback s =
    (let m = (if toggle then js_or (displayControl s) control
              else js_and (displayControl s) (js_not control))
     in Inr (accept (request 0 0 (js_or 8 m) Undef callback)
         (accept (request 0 0 (js_shr (js_or 8 m) 4) Undef None) (s\<lparr>displayControl := m\<rparr>))))"
  by (cases callback) (simp_all add: setDisplayControl_def writeInstruction_accept as_arg_def Let_def request_def)

lemma mask_setDisplayControl:
  assumes "mask_ok s" "control \<in> {1, 2, 4}" "setDisplayControl control toggle callback s = Inr s'"
  shows "mask_ok s'"
  using assms mask_ops(1-6) [of "displayControl s" control]
  by (auto simp: setDisplayControl_accept mask_ok_def Let_def split: if_splits)

lemma mask_writeInstruction:
  assumes "mask_ok s" "writeInstruction bits delay callback s = Inr s'"
  shows "mask_ok s'"
  using assms by (auto simp: writeInstruction_accept mask_ok_def)

lemma displayControl_attach:
  "\<exists>s'. attach nxt s = Inr s' \<and> displayControl s' = js_or 0 4"
  unfolding attach_def Let_def turnOn_def clear_def
  by (simp add: writeInstruction_accept write_q_accept setDisplayControl_accept Let_def)

lemma mask_api_call:
  assumes "mask_ok s" "api_call c s = Inr s'"
  shows "mask_ok s'"
proof (cases c)
  case (Attach cb)
  with assms(2) displayControl_attach [of "user cb" s] show ?thesis
    by (auto simp: mask_ok_def js_or_def to_int32_def)
next
  case (Print str cb)
  with assms show ?thesis
    using displayControl_call [of "EachNext str (user cb)" None s s']
    by (auto simp: print_def eachSeries_def mask_ok_def wf_cb_def user_def split: option.splits)
next
  case Detach
  with assms show ?thesis
    by (auto simp: detach_def turnOff_def intro: mask_setDisplayControl)
next
  case (Clear cb)
  with assms show ?thesis
    by (auto simp: clear_def intro: mask_writeInstruction)
next
  case (SetCursor x y cb)
  with assms show ?thesis
    by (auto simp: setCursor_def Let_def intro: mask_writeInstruction)
next
  case (WriteInstruction bits d cb)
  with assms show ?thesis
    by (auto intro: mask_writeInstruction)
next
  case (Write rs rw bits d cb)
  with assms show ?thesis
    by (auto simp: write_q_accept mask_ok_def)
qed (use assms in \<open>auto simp: blinkOn_def blinkOff_def cursorOn_def cursorOff_def
      turnOn_def turnOff_def intro: mask_setDisplayControl\<close>)

lemma mask_step:
  assumes "inv_state s" "mask_ok s" "step e s = Inr s'"
  shows "mask_ok s'"
proof (cases e)
  case (Call c)
  with assms mask_api_call show ?thesis by auto
next
  case (Ack outcome)
  show ?thesis
  proof (cases "acks s")
    case Nil
    with Ack assms show ?thesis by simp
  next
    case (Cons p rest)
    then obtain d where "acks s = [(d, Some QueueNext)]"
      using assms(1) by (auto simp: inv_state_def flight_def split: option.splits)
    with Ack assms(2,3) displayControl_done [of "s\<lparr>acks := []\<rparr>" s'] show ?thesis
      by (auto simp: enable_written_def mask_ok_def split: option.splits)
  qed
next
  case Timeout
  show ?thesis
  proof (cases "List.find (\<lambda>t. fst t \<le> clock s) (timers s)")
    case None
    with Timeout assms show ?thesis by simp
  next
    case (Some t)
    then have "t \<in> set (timers s)"
      by (auto simp: find_Some_iff)
    then have "snd t = Some QueueNext"
      using assms(1) by (auto simp: inv_state_def flight_def split: option.splits)
    with Timeout Some assms(2,3)
      displayControl_done [of "s\<lparr>timers := remove1 t (timers s)\<rparr>" s'] show ?thesis
      by (auto simp: mask_ok_def)
  qed
next
  case Immediate
  show ?thesis
  proof (cases "immediates s")
    case Nil
    with Immediate assms show ?thesis by simp
  next
    case (Cons p rest)
    obtain f err where p: "p = (f, err)" by (cases p)
    have "wf_cb f"
      using assms(1) Cons p by (auto simp: inv_state_def common_def)
    from displayControl_call [OF this] Immediate Cons p assms(2,3) show ?thesis
      by (auto simp: mask_ok_def)
  qed
next
  case (Tick n)
  with assms show ?thesis by (auto simp: mask_ok_def)
qed

lemma mask_run:
  assumes "inv_state s" "mask_ok s" "run es s = Inr s'"
  shows "mask_ok s'"
  using assms
proof (induction es arbitrary: s)
  case Nil
  then show ?case by simp
next
  case (Cons e es)
  from step_inv [OF Cons.prems(1), of e] obtain s1 where s1: "step e s = Inr s1" "inv_state s1"
    by blast
  with Cons.prems mask_step [of s e s1] have "mask_ok s1" "run es s1 = Inr s'"
    by auto
  with Cons.IH [of s1] s1 show ?case by simp
qed

lemma reachable_mask: "run es init = Inr s \<Longrightarrow> mask_ok s"
  using mask_run [OF inv_init, of es s] by (simp add: mask_ok_def init_def)

section \<open>Sums that binary64 holds exactly\<close>

lemma round_even_int [simp]: "round_even (of_int z) = z"
  by (simp add: round_even_def)

lemma ilog2_int: "0 < n \<Longrightarrow> ilog2 (of_int n) = bitlen n - 1"
  by (simp add: ilog2_def)

lemma bitlen_small:
  assumes "0 < n" "n < 2 ^ 53"
  shows "1 \<le> bitlen n" "bitlen n \<le> 53"
proof -
  show "1 \<le> bitlen n" using assms(1) by (simp add: bitlen_alt_def)
  have "2 ^ nat (bitlen n - 1) \<le> n" using bitlen_bounds [OF assms(1)] by simp
  then have "(2::int) ^ nat (bitlen n - 1) < 2 ^ 53" using assms(2) by linarith
  then have "nat (bitlen n - 1) < 53"
    using power_strict_increasing_iff [of "2::int" "nat (bitlen n - 1)" 53] by linarith
  then show "bitlen n \<le> 53" by linarith
qed

lemma round_magnitude:
  assumes "0 < n" "n < 2 ^ 53"
  shows "of_int (round_even (of_int n / pow2 (max (ilog2 (of_int n)) (- 1022) - 52))) *
      pow2 (max (ilog2 (of_int n)) (- 1022) - 52) = (of_int n :: rat)"
    and "\<not> pow2 1024 \<le> (of_int n :: rat)"
proof -
  define k where "k = nat (53 - bitlen n)"
  have b: "1 \<le> bitlen n" "bitlen n \<le> 53" using bitlen_small [OF assms] by auto
  have e: "max (ilog2 (of_int n)) (- 1022) - 52 = - int k"
    using assms b by (simp add: ilog2_int k_def)
  have u: "pow2 (- int k) = 1 / 2 ^ k"
    by (cases "k = 0") (simp_all add: pow2_def)
  have "(of_int n :: rat) / (1 / 2 ^ k) = of_int (n * 2 ^ k)"
    by simp
  then have r: "of_int (round_even ((of_int n :: rat) / (1 / 2 ^ k))) * (1 / 2 ^ k) = (of_int n :: rat)"
    by (simp only: round_even_int) simp
  show "of_int (round_even (of_int n / pow2 (max (ilog2 (of_int n)) (- 1022) - 52))) *
      pow2 (max (ilog2 (of_int n)) (- 1022) - 52) = (of_int n :: rat)"
    unfolding e u by (rule r)
  have "(of_int n :: rat) < of_int (2 ^ 53)" using assms(2) by (simp only: of_int_less_iff)
  also have "\<dots> < 2 ^ 1024" by simp
  finally show "\<not> pow2 1024 \<le> (of_int n :: rat)" by (simp add: pow2_def)
qed

text \<open>An integer of magnitude below \<open>2 ^ 53\<close> is a binary64 value: rounding leaves it.\<close>

lemma round_binary64_int:
  assumes "\<bar>n\<bar> < 2 ^ 53"
  shows "round_binary64 (of_int n) = Num (of_int n)"
proof (cases "n = 0")
  case True
  then show ?thesis by (simp add: round_binary64_def)
next
  case False
  show ?thesis
  proof (cases "0 < n")
    case True
    with assms have p: "0 < n" "n < 2 ^ 53" by auto
    have a: "\<bar>of_int n :: rat\<bar> = of_int n" using True by simp
    show ?thesis
      using True round_magnitude [OF p]
      unfolding round_binary64_def Let_def a by simp
  next
    case neg: False
    with False assms have p: "0 < - n" "- n < 2 ^ 53" by auto
    have a: "\<bar>of_int n :: rat\<bar> = of_int (- n)" using neg by simp
    show ?thesis
      using neg False round_magnitude [OF p]
      unfolding round_binary64_def Let_def a by simp
  qed
qed

lemma js_trunc_int [simp]: "js_trunc (of_int n) = n"
  by (simp add: js_trunc_def)

lemma js_trunc_numeral [simp]: "js_trunc (numeral k) = numeral k"
  using js_trunc_int [of "numeral k"] by simp

section \<open>The table of row addresses\<close>

lemma row_values: "0 \<le> (y::int) \<Longrightarrow> y < 4 \<Longrightarrow> y \<in> {0, 1, 2, 3}"
  by auto

lemma js_index_rows:
  assumes "0 \<le> y" "y < 4"
  shows "js_index [0x00, 0x40, 0x14, 0x54] (Num (of_int y)) = Num (of_int (spec_row_base y))"
  using row_values [OF assms] by (auto simp: spec_row_base_def)

lemma js_index_outside:
  assumes "\<forall>r. y = Num r \<longrightarrow> r < 0 \<or> 4 \<le> r \<or> of_int \<lfloor>r\<rfloor> \<noteq> r"
  shows "js_index [0x00, 0x40, 0x14, 0x54] y = Undefined"
  using assms by (cases y) auto

lemma latched_writeInstruction:
  "latched lv (trace_of (case writeInstruction bits (as_arg cb) None init of
       Inl e \<Rightarrow> Inl e | Inr s' \<Rightarrow> run [Ack outcome] s')) =
     [(0, 0, bits div 16 mod 16), (0, 0, bits mod 16)]"
  by (cases cb) (simp_all add: run_eval latched_processWrite latched_append shr4_mod16)

lemma setCursor_rows:
  assumes "0 \<le> y" "y < 4"
  shows "setCursor x (Num (of_int y)) callback s =
    writeInstruction (js_or_val (Num (of_int 0x80)) (js_add (Num (of_int (spec_row_base y))) x))
      (as_arg callback) None s"
  by (simp only: setCursor_def Let_def js_index_rows [OF assms])

lemma setCursor_outside:
  assumes "\<forall>r. y = Num r \<longrightarrow> r < 0 \<or> 4 \<le> r \<or> of_int \<lfloor>r\<rfloor> \<noteq> r"
  shows "setCursor x y callback s = writeInstruction 0x80 (as_arg callback) None s"
  by (simp add: setCursor_def Let_def js_index_outside [OF assms] js_or_val_def to_int32_def)

section \<open>While a transaction is in flight\<close>

lemma signaled_append [simp]: "signaled (xs @ ys) = signaled xs + signaled ys"
  by (induction xs rule: signaled.induct) auto

lemma bus_writes_append [simp]: "bus_writes (xs @ ys) = bus_writes xs @ bus_writes ys"
  by (induction xs rule: bus_writes.induct) auto










section \<open>Serving the queue to the end\<close>

lemma run_append: "run (xs @ ys) s = (case run xs s of Inl e \<Rightarrow> Inl e | Inr s' \<Rightarrow> run ys s')"
  by (induction xs arbitrary: s) (auto split: sum.splits)

lemma done_next_facts:
  assumes "common s" and "activeItem s = Some a" and "queue s = Some q"
    and "acks s = []" and "timers s = []"
  shows "\<exists>s'. processWrite_done (Some QueueNext) s = Inr s' \<and> inv_state s' \<and> pending s' = q \<and>
    immediates s' = immediates s @ (case item_callback a of None \<Rightarrow> [] | Some f \<Rightarrow> [(f, None)]) \<and>
    latched lv (trace s') = latched lv (trace s) @ (case q of [] \<Rightarrow> [] | b # r \<Rightarrow> [nibble_of b]) \<and>
    clock s' = clock s \<and> activeItem s' = (case q of [] \<Rightarrow> None | b # r \<Rightarrow> Some b) \<and>
    queue s' = (case q of [] \<Rightarrow> None | b # r \<Rightarrow> Some r) \<and>
    acks s' = (case q of [] \<Rightarrow> [] | b # r \<Rightarrow> [(args_delay b, Some QueueNext)]) \<and>
    timers s' = []"
  using assms
  by (cases q)
     (auto simp: processWrite_done_def invokeCallback.simps write_next.simps bind_def
        inv_state_def flight_def common_def pending_def pipeline_def nibble_of_def
        latched_processWrite latched_append
        split: option.splits)

lemma complete_head:
  assumes "inv_state s" and "activeItem s = Some a" and "queue s = Some q"
  shows "\<exists>s'. run (Ack outcome # (case args_delay a of None \<Rightarrow> [] | Some d \<Rightarrow> [Tick d, Timeout])) s
      = Inr s' \<and> inv_state s' \<and> pending s' = q \<and>
    immediates s' = immediates s @ (case item_callback a of None \<Rightarrow> [] | Some f \<Rightarrow> [(f, None)]) \<and>
    latched lv (trace s') = latched lv (trace s) @ (case q of [] \<Rightarrow> [] | b # r \<Rightarrow> [nibble_of b])"
proof -
  have c: "common s"
    using assms(1) by (simp add: inv_state_def)
  have c': "common (s\<lparr>acks := x, timers := y, clock := z\<rparr>)" for x y z
    using c by (simp add: common_def pending_def pipeline_def)
  from assms consider
      (ack) "acks s = [(args_delay a, Some QueueNext)]" "timers s = []"
    | (timer) due d where "acks s = []" "timers s = [(due, Some QueueNext)]"
        "args_delay a = Some d" "due \<le> clock s + d"
    by (auto simp: inv_state_def flight_def)
  then show ?thesis
  proof cases
    case ack
    show ?thesis
    proof (cases "args_delay a")
      case None
      from done_next_facts [OF c' [where x = "[]" and y = "[]" and z = "clock s"], of a q lv] assms(2,3)
      obtain s' where "processWrite_done (Some QueueNext) (s\<lparr>acks := [], timers := [], clock := clock s\<rparr>) = Inr s'"
        "inv_state s'" "pending s' = q"
        "immediates s' = immediates s @ (case item_callback a of None \<Rightarrow> [] | Some f \<Rightarrow> [(f, None)])"
        "latched lv (trace s') = latched lv (trace s) @ (case q of [] \<Rightarrow> [] | b # r \<Rightarrow> [nibble_of b])"
        by auto
      moreover have "s\<lparr>acks := [], timers := [], clock := clock s\<rparr> = s\<lparr>acks := []\<rparr>"
        using ack by simp
      ultimately show ?thesis
        using None ack by (simp add: enable_written_def)
    next
      case (Some d)
      have "common (s\<lparr>acks := [], clock := clock s + d, timers := []\<rparr>)"
        using c by (simp add: common_def pending_def pipeline_def)
      from done_next_facts [OF this, of a q lv] assms(2,3)
      obtain s' where "processWrite_done (Some QueueNext) (s\<lparr>acks := [], clock := clock s + d, timers := []\<rparr>) = Inr s'"
        "inv_state s'" "pending s' = q"
        "immediates s' = immediates s @ (case item_callback a of None \<Rightarrow> [] | Some f \<Rightarrow> [(f, None)])"
        "latched lv (trace s') = latched lv (trace s) @ (case q of [] \<Rightarrow> [] | b # r \<Rightarrow> [nibble_of b])"
        by auto
      then show ?thesis
        using Some ack by (simp add: enable_written_def)
    qed
  next
    case timer
    have "common (s\<lparr>clock := clock s + d, timers := []\<rparr>)"
      using c by (simp add: common_def pending_def pipeline_def)
    from done_next_facts [OF this, of a q lv] assms(2,3) timer(1)
    obtain s' where "processWrite_done (Some QueueNext) (s\<lparr>clock := clock s + d, timers := []\<rparr>) = Inr s'"
      "inv_state s'" "pending s' = q"
      "immediates s' = immediates s @ (case item_callback a of None \<Rightarrow> [] | Some f \<Rightarrow> [(f, None)])"
      "latched lv (trace s') = latched lv (trace s) @ (case q of [] \<Rightarrow> [] | b # r \<Rightarrow> [nibble_of b])"
      by auto
    then show ?thesis
      using timer by simp
  qed
qed

lemma drain_run:
  assumes "inv_state s" and "pending s = its"
  shows "\<exists>s'. run (drain outcome its) s = Inr s' \<and> inv_state s' \<and> pending s' = [] \<and>
    immediates s' = immediates s @ map (\<lambda>f. (f, None)) (callbacks its) \<and>
    latched lv (trace s') = latched lv (trace s) @ map nibble_of (tl its)"
  using assms
proof (induction its arbitrary: s)
  case Nil
  then show ?case by simp
next
  case (Cons a rest)
  then have a: "activeItem s = Some a" "queue s = Some rest"
    by (auto simp: inv_state_def flight_def pending_def split: option.splits)
  from complete_head [OF Cons.prems(1) a, of outcome lv]
  obtain s1 where s1: "run (Ack outcome # (case args_delay a of None \<Rightarrow> [] | Some d \<Rightarrow> [Tick d, Timeout])) s
      = Inr s1" "inv_state s1" "pending s1 = rest"
    "immediates s1 = immediates s @ (case item_callback a of None \<Rightarrow> [] | Some f \<Rightarrow> [(f, None)])"
    "latched lv (trace s1) = latched lv (trace s) @ (case rest of [] \<Rightarrow> [] | b # r \<Rightarrow> [nibble_of b])"
    by blast
  from Cons.IH [OF s1(2,3)]
  obtain s' where s': "run (drain outcome rest) s1 = Inr s'" "inv_state s'" "pending s' = []"
    "immediates s' = immediates s1 @ map (\<lambda>f. (f, None)) (callbacks rest)"
    "latched lv (trace s') = latched lv (trace s1) @ map nibble_of (tl rest)"
    by blast
  have "run (drain outcome (a # rest)) s = Inr s'"
    using run_append [of "Ack outcome # (case args_delay a of None \<Rightarrow> [] | Some d \<Rightarrow> [Tick d, Timeout])"
        "drain outcome rest" s] s1(1) s'(1)
    by simp
  moreover have "latched lv (trace s') = latched lv (trace s) @ map nibble_of rest"
    using s'(5) s1(5) by (cases rest) simp_all
  ultimately show ?case
    using s' s1(4) by (auto split: option.splits)
qed

section \<open>Printing on a driver at rest\<close>




lemma quiescent_trace [simp]: "quiescent (s\<lparr>trace := tr\<rparr>) = quiescent s"
  by (simp add: quiescent_def)



section \<open>Completions, notifiers and falling edges\<close>








lemma latched_single [simp]:
  "latched lv [Enq it] = []" "latched lv [Sync f e] = []" "latched lv [Async f e] = []"
  "latched lv [Wr Line_p3 v] = []"
  by simp_all

lemma accept_fields [simp]:
  "immediates (accept it s) = immediates s"
  "signaled (trace (accept it s)) = signaled (trace s)"
  "fired (trace (accept it s)) = fired (trace s)"
  "clock (accept it s) = clock s"
  by (simp_all add: accept_def trace_processWrite split: option.splits)









section \<open>The settle delay over a whole run\<close>

lemma clock_line_write [simp]: "clock (line_write l v s) = clock s"
  by (simp add: line_write_def)










section \<open>Printing under every schedule\<close>





section \<open>The error parameter of the queue's callback\<close>

text \<open>
  \<^verbatim>\<open>next\<close> in \<^verbatim>\<open>_write\<close> takes an error: given one, it schedules the notifier of the
  request in flight with that error and goes on to the next request; when that request has
  no notifier, \<^verbatim>\<open>invokeCallback\<close> throws the error and the queue is left as it was.
  \<^verbatim>\<open>_processWrite\<close> never gives it one: \<^verbatim>\<open>done\<close> calls it with \<^verbatim>\<open>undefined\<close>.
\<close>

lemma next_given_error:
  assumes "activeItem s = Some a"
  shows "item_callback a = None \<Longrightarrow> write_next (Some e) s = Inl e"
    and "item_callback a = Some f \<Longrightarrow> queue s = Some (b # rest) \<Longrightarrow>
      write_next (Some e) s =
        Inr (processWrite (args_rs b) (args_rw b) (args_bits b) (args_delay b) (Some QueueNext)
          (s\<lparr>immediates := immediates s @ [(f, Some e)], queue := Some rest,
             activeItem := Some b\<rparr>))"
  using assms by (simp_all add: write_next.simps invokeCallback.simps bind_def)

lemma done_gives_no_error:
  "processWrite_done callback s = invokeCallback callback None True s"
  "enable_written outcome None callback s = processWrite_done callback s"
  by (simp_all add: processWrite_done_def enable_written_def)

text \<open>Rules that evaluate a given run, the bit operations included.\<close>

lemmas eval = init_def writeInstruction_def write_q.simps write_next.simps invokeCallback.simps
  eachSeries_next.simps print_handler.simps bind_def processWrite_def line_write_def
  user_def number_def as_arg_def enable_written_def processWrite_done_def
  js_shr_def js_and_def js_or_def js_not_def to_int32_def js_or_val_def Let_def
  setDisplayControl_def clear_def eachSeries_def print_def blinkOn_def blinkOff_def cursorOn_def
  cursorOff_def turnOn_def turnOff_def setCursor_def attach_def detach_def
  outstanding_def pipeline_def pending_def

section \<open>Single flight and first-in first-out notification\<close>

text \<open>
  Claim C1. Whatever callers do and in whatever order the line, the timers and the event
  loop deliver their events, the run never ends in an uncaught error, at most one bus
  transaction is outstanding in the state reached (a transaction is outstanding from the
  call of \<^verbatim>\<open>_processWrite\<close> until its \<^verbatim>\<open>done\<close>), and the notifiers of the requests
  have been run in the order in which \<^verbatim>\<open>_write\<close> accepted the requests: the notifiers
  run so far, followed by those still waiting in their order in the driver, are the
  notifiers of the accepted requests in the order of acceptance.
\<close>

theorem single_flight_fifo:
  "\<exists>s. run es init = Inr s \<and> outstanding s \<le> 1 \<and>
       fired (trace s) @ pipeline s = callbacks (enqueued (trace s))"
proof -
  obtain s where s: "run es init = Inr s" "inv_state s"
    using run_inv [OF inv_init] by blast
  then have "outstanding s \<le> 1"
    by (auto simp: inv_state_def flight_def outstanding_def split: option.splits)
  with s show ?thesis
    by (auto simp: inv_state_def common_def)
qed

theorem single_flight_fifo_witness:
  "\<exists>s. run [Call (Write 0 0 5 None (Some 1)), Call (Print [0x41] (Some 2)),
            Call (Clear (Some 3)), Ack None, Immediate, Ack (Some ''fault''), Ack None,
            Ack None, Tick 10, Timeout, Immediate] init = Inr s \<and>
       outstanding s \<le> 1 \<and>
       fired (trace s) @ pipeline s = callbacks (enqueued (trace s)) \<and>
       fired (trace s) = [User 1, EachNext [] (Some (User 2))] \<and>
       pipeline s = [User 3]"
  using single_flight_fifo
    [of "[Call (Write 0 0 5 None (Some 1)), Call (Print [0x41] (Some 2)),
            Call (Clear (Some 3)), Ack None, Immediate, Ack (Some ''fault''), Ack None,
            Ack None, Tick 10, Timeout, Immediate]"]
  by (simp add: eval)

section \<open>One byte as two nibble requests\<close>

text \<open>
  Claim C2, as the code has it. In every state the driver can reach, for every value,
  \<^verbatim>\<open>_writeInstruction\<close> returns and hands exactly two requests to \<^verbatim>\<open>_write\<close>,
  which join the requests in the driver in this order: first the one whose data lines
  carry bits 7 to 4, then the one whose data lines carry bits 3 to 0. Both carry the
  caller's settle delay (none only when the caller gave none); the caller's notifier is
  attached to the second only.
\<close>

theorem writeInstruction_two_nibbles:
  assumes "run es init = Inr s"
  shows "\<exists>s'. writeInstruction bits delay callback s = Inr s' \<and>
    enqueued (trace s') = enqueued (trace s) @ byte_items bits delay callback \<and>
    pending s' = pending s @ byte_items bits delay callback \<and>
    map args_delay (byte_items bits delay callback) =
      (case delay of Number n \<Rightarrow> [Some n, Some n] | _ \<Rightarrow> [None, None]) \<and>
    map item_callback (byte_items bits delay callback) =
      [None, case delay of Function f \<Rightarrow> Some f | _ \<Rightarrow> callback] \<and>
    map (nibble \<circ> args_bits) (byte_items bits delay callback) = [bits div 16 mod 16, bits mod 16]"
  using reachable_flight [OF assms]
  by (cases delay)
    (simp_all add: writeInstruction_accept pending_accept flight_accept request_def byte_items_def
      nibble_eq shr4_mod16)

theorem writeInstruction_two_nibbles_witness:
  "\<exists>s'. writeInstruction 0xA5 (Number 3) (Some (User 1)) init = Inr s' \<and>
    map args_delay (enqueued (trace s')) = [Some 3, Some 3] \<and>
    map item_callback (pending s') = [None, Some (User 1)] \<and>
    map (nibble \<circ> args_bits) (enqueued (trace s')) = [0xA, 0x5]"
  using writeInstruction_two_nibbles [of "[]" init "0xA5" "Number 3" "Some (User 1)"]
  by (auto simp: byte_items_def)

text \<open>
  Claim C2 as stated says that the high nibble is enqueued with no settle delay. For the
  byte \<open>0x01\<close> written with a settle delay of 10, the first request carries the delay
  10 as well.
\<close>

theorem first_nibble_delay_counterexample:
  "map args_delay (enqueued (trace_of (writeInstruction 0x01 (Number 10) (Some (User 1)) init))) =
     [Some 10, Some 10] \<and>
   args_delay (hd (enqueued (trace_of (writeInstruction 0x01 (Number 10) (Some (User 1)) init)))) \<noteq> None"
  by (simp add: eval trace_of_def)

section \<open>The byte on the data lines\<close>

text \<open>
  Claim C5. \<^verbatim>\<open>_processWrite\<close> writes bit 3 of its data to \<^verbatim>\<open>d7\<close>, bit 2 to
  \<^verbatim>\<open>d6\<close>, bit 1 to \<^verbatim>\<open>d5\<close> and bit 0 to \<^verbatim>\<open>d4\<close>, whatever the higher bits are, and
  pulses the enable line once, so that the controller latches the data modulo 16 with the
  register selector given. Writing a byte to the instruction register of a fresh driver,
  or printing one character (the data register), makes the controller latch exactly two
  nibbles with the same register selector: bits 7 to 4, then bits 3 to 0; for the byte
  \<open>0xA5\<close> these are \<open>0xA\<close> and \<open>0x5\<close>.
\<close>

theorem byte_on_data_lines:
  "trace (processWrite rs rw bits delay callback s) =
     trace s @ [Wr Line_rs rs, Wr Line_rw rw, Wr Line_d7 (of_bool (bit bits 3)),
       Wr Line_d6 (of_bool (bit bits 2)), Wr Line_d5 (of_bool (bit bits 1)),
       Wr Line_d4 (of_bool (bit bits 0)), Wr Line_e 1, Wr Line_e 0] \<and>
   latched lv (trace (processWrite rs rw bits delay callback s)) =
     latched lv (trace s) @ [(rs, rw, bits mod 16)] \<and>
   latched lv (trace_of (run [Call (WriteInstruction bits None cb), Ack outcome] init)) =
     [(Register_instruction, ReadWrite_write, bits div 16 mod 16),
      (Register_instruction, ReadWrite_write, bits mod 16)] \<and>
   latched lv (trace_of (run [Call (Print [char] cb), Ack outcome] init)) =
     [(Register_data, ReadWrite_write, uint char div 16 mod 16),
      (Register_data, ReadWrite_write, uint char mod 16)] \<and>
   latched lv (trace_of (run [Call (WriteInstruction 0xA5 None cb), Ack outcome] init)) =
     [(Register_instruction, ReadWrite_write, 0xA), (Register_instruction, ReadWrite_write, 0x5)] \<and>
   latched lv (trace_of (run [Call (Print [0xA5] cb), Ack outcome] init)) =
     [(Register_data, ReadWrite_write, 0xA), (Register_data, ReadWrite_write, 0x5)]"
proof -
  have a: "latched lv (trace_of (run [Call (WriteInstruction b None cb), Ack outcome] init)) =
     [(0, 0, b div 16 mod 16), (0, 0, b mod 16)]" for b
    by (simp add: run_eval latched_processWrite latched_append shr4_mod16)
  have b: "latched lv (trace_of (run [Call (Print [c] cb), Ack outcome] init)) =
     [(1, 0, uint c div 16 mod 16), (1, 0, uint c mod 16)]" for c
    by (simp add: run_eval latched_processWrite latched_append shr4_mod16)
  have c: "trace (processWrite rs rw bits delay callback s) =
     trace s @ [Wr Line_rs rs, Wr Line_rw rw, Wr Line_d7 (of_bool (bit bits 3)),
       Wr Line_d6 (of_bool (bit bits 2)), Wr Line_d5 (of_bool (bit bits 1)),
       Wr Line_d4 (of_bool (bit bits 0)), Wr Line_e 1, Wr Line_e 0]"
    by (simp add: trace_processWrite js_and_1 bit_js_shr0)
  have a5: "latched lv (trace_of (run [Call (WriteInstruction 0xA5 None cb), Ack outcome] init)) =
     [(0, 0, 0xA), (0, 0, 0x5)]"
    using a [of "0xA5"] by simp
  have b5: "latched lv (trace_of (run [Call (Print [0xA5] cb), Ack outcome] init)) =
     [(1, 0, 0xA), (1, 0, 0x5)]"
    using b [of "0xA5"] by simp
  show ?thesis
    by (intro conjI) (rule c latched_processWrite a b a5 b5)+
qed

theorem byte_on_data_lines_witness:
  "trace (processWrite Register_data ReadWrite_write 0x1A5 None None init) =
     [Wr Line_rs 1, Wr Line_rw 0, Wr Line_d7 0, Wr Line_d6 1, Wr Line_d5 0, Wr Line_d4 1,
      Wr Line_e 1, Wr Line_e 0] \<and>
   latched (\<lambda>l. 0) (trace (processWrite Register_data ReadWrite_write 0x1A5 None None init)) =
     [(1, 0, 0x5)] \<and>
   latched (\<lambda>l. 0) (trace_of (run [Call (WriteInstruction 0x3C None (Some 1)), Ack None] init)) =
     [(0, 0, 0x3), (0, 0, 0xC)] \<and>
   latched (\<lambda>l. 0) (trace_of (run [Call (Print [0x48] None), Ack (Some ''fault'')] init)) =
     [(1, 0, 0x4), (1, 0, 0x8)]"
  using byte_on_data_lines [where rs = 1 and rw = 0 and bits = "0x1A5" and delay = None
      and callback = None and s = init and lv = "\<lambda>l. 0" and cb = "Some 1" and outcome = None]
    byte_on_data_lines [where bits = "0x3C" and lv = "\<lambda>l. 0" and cb = "Some 1" and outcome = None]
    byte_on_data_lines [where char = "0x48" and lv = "\<lambda>l. 0" and cb = None
      and outcome = "Some ''fault''"]
  by simp

section \<open>The attach sequence\<close>

text \<open>
  Claim C4. On a fresh driver \<^verbatim>\<open>attach\<close> returns and hands these requests to
  \<^verbatim>\<open>_write\<close>, in this order and no others: the two nibbles of \<open>0x38\<close>, the single
  nibble \<open>0x2\<close>, the two nibbles of \<open>0x28\<close>, of the set-display-control instruction
  with the display bit (\<open>0x0C\<close>), of the clear instruction (\<open>0x01\<close>, settle delay 10),
  of the entry-mode instruction (\<open>0x06\<close>) and of the return-home instruction
  (\<open>0x02\<close>, with the callback of \<^verbatim>\<open>attach\<close>). They are the requests in the driver
  afterwards, in the same order, and when the line and the timers are served the
  controller latches the thirteen nibbles in that order.
\<close>

theorem attach_sequence:
  "\<exists>s. attach nxt init = Inr s \<and>
     enqueued (trace s) =
       byte_items 0x38 Undef None @
       [\<lparr>args_rs = Register_instruction, args_rw = ReadWrite_write, args_bits = 0x2,
         args_delay = None, item_callback = None\<rparr>] @
       byte_items 0x28 Undef None @
       byte_items 0x0C Undef None @
       byte_items Instruction_clearDisplay (Number 10) None @
       byte_items 0x06 Undef None @
       byte_items Instruction_returnHome (as_arg nxt) None \<and>
     pending s = enqueued (trace s) \<and>
     latched lv (trace_of (run (replicate 7 (Ack None) @
         [Ack None, Tick 10, Timeout, Ack None, Tick 10, Timeout] @ replicate 4 (Ack None)) s)) =
       map (\<lambda>n. (Register_instruction, ReadWrite_write, n))
         [0x3, 0x8, 0x2, 0x2, 0x8, 0x0, 0xC, 0x0, 0x1, 0x0, 0x6, 0x0, 0x2]"
  by (cases nxt) (simp_all add: eval byte_items_def trace_of_def replicate_def)

theorem attach_sequence_witness:
  "\<exists>s. attach (Some (User 7)) init = Inr s \<and>
     map args_bits (enqueued (trace s)) =
       [0x3, 0x38, 0x2, 0x2, 0x28, 0x0, 0x0C, 0x0, 0x01, 0x0, 0x06, 0x0, 0x02] \<and>
     map args_delay (enqueued (trace s)) =
       [None, None, None, None, None, None, None, Some 10, Some 10, None, None, None, None] \<and>
     map item_callback (pending s) =
       [None, None, None, None, None, None, None, None, None, None, None, None, Some (User 7)]"
  using attach_sequence [of "Some (User 7)" "\<lambda>l. 0"]
  by (auto simp: byte_items_def js_shr_def to_int32_def as_arg_def)

section \<open>Display control\<close>

text \<open>
  Claim C7. In every state the driver can reach the display-control state is a 3-bit
  mask, and each of \<^verbatim>\<open>turnOn\<close>, \<^verbatim>\<open>turnOff\<close>, \<^verbatim>\<open>cursorOn\<close>, \<^verbatim>\<open>cursorOff\<close>,
  \<^verbatim>\<open>blinkOn\<close>, \<^verbatim>\<open>blinkOff\<close> returns, sets or clears its bit in the mask and leaves
  the other two, and enqueues exactly the two nibble requests of the instruction
  \<open>0x08\<close> OR the whole new mask. With only the display bit set, \<^verbatim>\<open>blinkOn\<close> and then
  \<^verbatim>\<open>cursorOn\<close> enqueue the instructions \<open>0x0D\<close> and \<open>0x0F\<close>.
\<close>

theorem display_control_toggle:
  assumes "run es init = Inr s"
  shows "0 \<le> displayControl s \<and> displayControl s < 8 \<and>
    (\<forall>(command, control, toggle) \<in> set toggles.
       \<exists>s'. command callback s = Inr s' \<and>
         displayControl s' =
           (if toggle then displayControl s OR control else displayControl s AND NOT control) \<and>
         enqueued (trace s') = enqueued (trace s) @
           byte_items (Instruction_setDisplayControl OR displayControl s') (as_arg callback) None \<and>
         pending s' = pending s @
           byte_items (Instruction_setDisplayControl OR displayControl s') (as_arg callback) None) \<and>
    (displayControl s = DisplayControl_display \<longrightarrow>
       (\<exists>s1 s2. blinkOn callback s = Inr s1 \<and> cursorOn callback2 s1 = Inr s2 \<and>
          enqueued (trace s2) = enqueued (trace s) @
            byte_items 0x0D (as_arg callback) None @ byte_items 0x0F (as_arg callback2) None))"
proof -
  have m: "0 \<le> displayControl s" "displayControl s < 8"
    using reachable_mask [OF assms] by (simp_all add: mask_ok_def)
  have f: "flight s"
    by (rule reachable_flight [OF assms])
  have g: "\<exists>s'. setDisplayControl control toggle callback s = Inr s' \<and>
         displayControl s' =
           (if toggle then displayControl s OR control else displayControl s AND NOT control) \<and>
         enqueued (trace s') = enqueued (trace s) @
           byte_items (8 OR displayControl s') (as_arg callback) None \<and>
         pending s' = pending s @
           byte_items (8 OR displayControl s') (as_arg callback) None"
    if c: "control \<in> {1, 2, 4}" for control toggle
  proof -
    define m where "m = (if toggle then js_or (displayControl s) control
              else js_and (displayControl s) (js_not control))"
    have m1: "m = (if toggle then displayControl s OR control else displayControl s AND NOT control)"
      and m2: "0 \<le> m" "m < 8"
      using mask_ops (1-6) [OF m c] by (auto simp: m_def)
    have b: "byte_items (8 OR m) (as_arg callback) None =
        [request 0 0 (js_shr (js_or 8 m) 4) Undef None, request 0 0 (js_or 8 m) Undef callback]"
      by (cases callback) (simp_all add: byte_items_def request_def as_arg_def js_or_8 [OF m2])
    have "setDisplayControl control toggle callback s =
        Inr (accept (request 0 0 (js_or 8 m) Undef callback)
         (accept (request 0 0 (js_shr (js_or 8 m) 4) Undef None) (s\<lparr>displayControl := m\<rparr>)))"
      by (simp add: setDisplayControl_accept m_def Let_def)
    then show ?thesis
      using f by (simp add: pending_accept flight_accept b m1 [symmetric])
  qed
  have h: "\<exists>s1 s2. blinkOn callback s = Inr s1 \<and> cursorOn callback2 s1 = Inr s2 \<and>
          enqueued (trace s2) = enqueued (trace s) @
            byte_items 0x0D (as_arg callback) None @ byte_items 0x0F (as_arg callback2) None"
    if "displayControl s = 4"
    using that
    by (cases callback; cases callback2)
       (simp_all add: blinkOn_def cursorOn_def setDisplayControl_accept Let_def byte_items_def
          request_def as_arg_def js_or_def to_int32_def)
  show ?thesis
    using m g [of 4 True] g [of 4 False] g [of 2 True] g [of 2 False] g [of 1 True] g [of 1 False] h
    by (simp add: toggles_def turnOn_def turnOff_def cursorOn_def cursorOff_def
        blinkOn_def blinkOff_def)
qed

theorem display_control_toggle_witness:
  "\<exists>s. run [Call (TurnOn None)] init = Inr s \<and> displayControl s = 0x04 \<and>
     (\<exists>s1 s2. blinkOn (Some (User 1)) s = Inr s1 \<and> displayControl s1 = 0x05 \<and>
        cursorOn (Some (User 2)) s1 = Inr s2 \<and>
        map args_bits (enqueued (trace s2)) = [0x0, 0x0C, 0x0, 0x0D, 0x0, 0x0F] \<and>
        map item_callback (enqueued (trace s2)) =
          [None, None, None, Some (User 1), None, Some (User 2)])"
proof -
  obtain s where s: "run [Call (TurnOn None)] init = Inr s" "displayControl s = 4"
    "enqueued (trace s) = byte_items 0x0C Undef None"
    by (simp add: eval byte_items_def)
  have b: "map args_bits (byte_items bits d c) = [js_shr bits 4, bits]"
    "map item_callback (byte_items bits d c) = [None, case d of Function f \<Rightarrow> Some f | _ \<Rightarrow> c]"
    for bits d c
    by (simp_all add: byte_items_def)
  have j: "js_shr 0x0C 4 = 0" "js_shr 0x0D 4 = 0" "js_shr 0x0F 4 = 0"
    by (simp_all add: js_shr_def to_int32_def)
  from display_control_toggle [OF s(1), of "Some (User 1)" "Some (User 2)"] s(2)
  obtain s1 s2 s1' where
    "blinkOn (Some (User 1)) s = Inr s1" "cursorOn (Some (User 2)) s1 = Inr s2"
    "enqueued (trace s2) = enqueued (trace s) @
            byte_items 0x0D (as_arg (Some (User 1))) None @ byte_items 0x0F (as_arg (Some (User 2))) None"
    "blinkOn (Some (User 1)) s = Inr s1'" "displayControl s1' = displayControl s OR 1"
    by (auto simp: toggles_def)
  with s show ?thesis
    by (auto simp: b j as_arg_def)
qed

section \<open>Cursor addressing\<close>

text \<open>
  Claim C8. For every column value (any number, \<^verbatim>\<open>NaN\<close>, an infinity or
  \<^verbatim>\<open>undefined\<close>) and every row from 0 to 3, \<^verbatim>\<open>setCursor\<close> returns and enqueues
  exactly the two nibble requests of the one instruction \<open>0x80 | (base + x)\<close>, where
  \<open>base\<close> is the base address the specification gives for the row and \<open>|\<close> and \<open>+\<close>
  are the operators of JavaScript (the sum rounded to binary64, the operand of \<open>|\<close>
  truncated and reduced by ToInt32); on a fresh driver the controller latches bits 7 to 4
  and then bits 3 to 0 of that value. When the column is an integer and the sum is of
  magnitude below \<open>2 ^ 53\<close>, the sum is exact and the instruction is \<open>0x80\<close> OR the
  integer \<open>base + x\<close>. For column 2 of row 1 the instruction is \<open>0xC2\<close>.
\<close>

theorem setCursor_address:
  assumes "0 \<le> y" and "y < 4"
  shows "(\<exists>s'. setCursor x (Num (of_int y)) callback s = Inr s' \<and>
      enqueued (trace s') = enqueued (trace s) @
        byte_items (js_or_val (Num (of_int Instruction_setDdramAddress))
            (js_add (Num (of_int (spec_row_base y))) x))
          (as_arg callback) None) \<and>
    (\<bar>spec_row_base y + n\<bar> < 2 ^ 53 \<longrightarrow>
      js_or_val (Num (of_int Instruction_setDdramAddress))
          (js_add (Num (of_int (spec_row_base y))) (Num (of_int n))) =
        js_or Instruction_setDdramAddress (spec_row_base y + n)) \<and>
    latched lv (trace_of (run [Call (SetCursor x (Num (of_int y)) cb), Ack outcome] init)) =
      [(Register_instruction, ReadWrite_write,
        js_or_val (Num (of_int Instruction_setDdramAddress))
          (js_add (Num (of_int (spec_row_base y))) x) div 16 mod 16),
       (Register_instruction, ReadWrite_write,
        js_or_val (Num (of_int Instruction_setDdramAddress))
          (js_add (Num (of_int (spec_row_base y))) x) mod 16)] \<and>
    js_or Instruction_setDdramAddress (spec_row_base 1 + 2) = 0xC2"
proof -
  have a: "\<exists>s'. setCursor x (Num (of_int y)) callback s = Inr s' \<and>
      enqueued (trace s') = enqueued (trace s) @
        byte_items (js_or_val (Num (of_int 0x80)) (js_add (Num (of_int (spec_row_base y))) x))
          (as_arg callback) None"
    unfolding setCursor_rows [OF assms]
    by (cases callback) (simp_all add: writeInstruction_accept as_arg_def request_def byte_items_def)
  have b: "js_or_val (Num (of_int 0x80)) (js_add (Num (of_int (spec_row_base y))) (Num (of_int n))) =
      js_or 0x80 (spec_row_base y + n)"
    if "\<bar>spec_row_base y + n\<bar> < 2 ^ 53"
  proof -
    have "js_add (Num (of_int (spec_row_base y))) (Num (of_int n)) =
        round_binary64 (of_int (spec_row_base y + n))"
      by simp
    also have "\<dots> = Num (of_int (spec_row_base y + n))"
      by (rule round_binary64_int [OF that])
    finally show ?thesis
      by (simp only: js_or_val_def js_or_def ToInt32.simps js_trunc_int)
  qed
  have c: "latched lv (trace_of (run [Call (SetCursor x (Num (of_int y)) cb), Ack outcome] init)) =
      [(0, 0, js_or_val (Num (of_int 0x80)) (js_add (Num (of_int (spec_row_base y))) x) div 16 mod 16),
       (0, 0, js_or_val (Num (of_int 0x80)) (js_add (Num (of_int (spec_row_base y))) x) mod 16)]"
    by (simp only: run.simps step.simps api_call.simps setCursor_rows [OF assms]
        latched_writeInstruction)
  have d: "js_or 0x80 (spec_row_base 1 + 2) = 0xC2"
    by (simp add: js_or_def to_int32_def spec_row_base_def)
  from a b c d show ?thesis by (intro conjI impI)
qed

theorem setCursor_address_witness:
  "(\<exists>s'. setCursor (Num 2) (Num 1) None init = Inr s' \<and>
      map args_bits (enqueued (trace s')) = [0xC, 0xC2]) \<and>
   latched (\<lambda>l. 0) (trace_of (run [Call (SetCursor (Num 2) (Num 1) None), Ack None] init)) =
     [(0, 0, 0xC), (0, 0, 0x2)] \<and>
   latched (\<lambda>l. 0) (trace_of (run [Call (SetCursor (Num 19) (Num 3) None), Ack None] init)) =
     [(0, 0, 0xE), (0, 0, 0x7)] \<and>
   latched (\<lambda>l. 0) (trace_of (run [Call (SetCursor (Num (5 / 2)) (Num 1) None), Ack None] init)) =
     [(0, 0, 0xC), (0, 0, 0x2)] \<and>
   latched (\<lambda>l. 0) (trace_of (run [Call (SetCursor (Num (2 ^ 53 - 1)) (Num 2) None), Ack None] init)) =
     [(0, 0, 0x9), (0, 0, 0x4)]"
proof -
  have r: "js_or_val (Num (of_int 0x80)) (js_add (Num (of_int (spec_row_base 1))) (Num 2)) = 0xC2"
    "js_or_val (Num (of_int 0x80)) (js_add (Num (of_int (spec_row_base 3))) (Num 19)) = 0xE7"
    "js_or_val (Num (of_int 0x80)) (js_add (Num (of_int (spec_row_base 1))) (Num (5 / 2))) = 0xC2"
    "js_or_val (Num (of_int 0x80)) (js_add (Num (of_int (spec_row_base 2))) (Num (2 ^ 53 - 1))) = 0x94"
    by code_simp+
  from setCursor_address [of 1 "Num 2" None init 2 "\<lambda>l. 0" None None]
    setCursor_address [of 3 "Num 19" None init 19 "\<lambda>l. 0" None None]
    setCursor_address [of 1 "Num (5 / 2)" None init 0 "\<lambda>l. 0" None None]
    setCursor_address [of 2 "Num (2 ^ 53 - 1)" None init 0 "\<lambda>l. 0" None None]
  show ?thesis
    unfolding r by (auto simp: byte_items_def js_shr_def to_int32_def)
qed

section \<open>Rows outside the table\<close>

text \<open>
  Claim C10. For every column value and every row value other than 0 to 3 (a number
  below 0, from 4 on or not an integer, \<^verbatim>\<open>NaN\<close>, an infinity or
  \<^verbatim>\<open>undefined\<close>), the lookup in the table gives
  \<^verbatim>\<open>undefined\<close>, adding the column gives \<^verbatim>\<open>NaN\<close>, the bitwise OR takes it as 0,
  and \<^verbatim>\<open>setCursor\<close> returns and enqueues exactly the two nibble requests of the one
  instruction \<open>0x80\<close>, which the controller of a fresh driver latches as 8 and 0.
\<close>

theorem setCursor_outside_rows:
  assumes "\<forall>r. y = Num r \<longrightarrow> r < 0 \<or> 4 \<le> r \<or> of_int \<lfloor>r\<rfloor> \<noteq> r"
  shows "js_index [0x00, 0x40, 0x14, 0x54] y = Undefined \<and>
    js_add Undefined x = NaN \<and>
    js_or_val (Num (of_int Instruction_setDdramAddress)) NaN = 0x80 \<and>
    (\<exists>s'. setCursor x y callback s = Inr s' \<and>
      enqueued (trace s') = enqueued (trace s) @ byte_items 0x80 (as_arg callback) None) \<and>
    latched lv (trace_of (run [Call (SetCursor x y cb), Ack outcome] init)) =
      [(Register_instruction, ReadWrite_write, 0x8), (Register_instruction, ReadWrite_write, 0x0)]"
proof -
  have a: "js_add Undefined x = NaN" by simp
  have b: "js_or_val (Num (of_int 0x80)) NaN = 0x80"
    by (simp add: js_or_val_def to_int32_def)
  have c: "\<exists>s'. setCursor x y callback s = Inr s' \<and>
      enqueued (trace s') = enqueued (trace s) @ byte_items 0x80 (as_arg callback) None"
    unfolding setCursor_outside [OF assms]
    by (cases callback) (simp_all add: writeInstruction_accept as_arg_def request_def byte_items_def)
  have d: "latched lv (trace_of (run [Call (SetCursor x y cb), Ack outcome] init)) =
      [(0, 0, 0x8), (0, 0, 0x0)]"
    by (simp only: run.simps step.simps api_call.simps setCursor_outside [OF assms]
        latched_writeInstruction) simp
  from js_index_outside [OF assms] a b c d show ?thesis by (intro conjI)
qed

theorem setCursor_outside_rows_witness:
  "(\<exists>s'. setCursor (Num 5) (Num 4) (Some (User 1)) init = Inr s' \<and>
      map args_bits (enqueued (trace s')) = [0x8, 0x80]) \<and>
   (\<exists>s'. setCursor (Num 5) (Num (- 1)) None init = Inr s' \<and>
      map args_bits (enqueued (trace s')) = [0x8, 0x80]) \<and>
   latched (\<lambda>l. 0) (trace_of (run [Call (SetCursor NaN Undefined None), Ack None] init)) =
     [(0, 0, 0x8), (0, 0, 0x0)]"
  using setCursor_outside_rows [of "Num 4" "Num 5" "Some (User 1)" init "\<lambda>l. 0" None None]
    setCursor_outside_rows [of "Num (- 1)" "Num 5" None init "\<lambda>l. 0" None None]
    setCursor_outside_rows [of Undefined NaN None init "\<lambda>l. 0" None None]
  by (auto simp: byte_items_def js_shr_def to_int32_def)

section \<open>Settle delays\<close>



section \<open>Failing line writes\<close>

text \<open>
  Claim C3, as the code has it. The callback that \<^verbatim>\<open>_processWrite\<close> gives to the second
  enable write takes no parameter, and \<^verbatim>\<open>done\<close> calls the queue with no error: a failure
  that the line reports is dropped. In every state the driver can reach: the
  acknowledgement of the enable write does the same whether it reports a failure or not;
  no callback has been called with an error; when the transaction in flight has no settle
  delay and a request is waiting, the failing acknowledgement schedules the notifier of the
  request in flight (if it has one) with no error and starts the waiting request on the bus;
  and when every write of the line fails, serving the line and the timers still carries
  out every request in the driver, in order, and schedules every notifier with no error,
  after which the queue is idle. A failed transaction never stalls the queue, and no
  request observes the fault, the failing one included.
\<close>

theorem fault_dropped_queue_proceeds:
  assumes "run es init = Inr s"
  shows "step (Ack (Some fault)) s = step (Ack None) s \<and>
    faults (trace s) = [] \<and>
    (\<forall>a b rest cb. activeItem s = Some a \<and> queue s = Some (b # rest) \<and> acks s = [(None, cb)] \<longrightarrow>
       (\<exists>s'. step (Ack (Some fault)) s = Inr s' \<and> activeItem s' = Some b \<and> queue s' = Some rest \<and>
          acks s' = [(args_delay b, Some QueueNext)] \<and>
          immediates s' =
            immediates s @ (case item_callback a of None \<Rightarrow> [] | Some f \<Rightarrow> [(f, None)]) \<and>
          latched lv (trace s') = latched lv (trace s) @ [nibble_of b])) \<and>
    (\<exists>s'. run (drain (Some fault) (pending s)) s = Inr s' \<and> pending s' = [] \<and>
       outstanding s' = 0 \<and>
       immediates s' = immediates s @ map (\<lambda>f. (f, None)) (callbacks (pending s)) \<and>
       latched lv (trace s') = latched lv (trace s) @ map nibble_of (tl (pending s)) \<and>
       faults (trace s') = [])"
proof -
  note i = reachable_inv [OF assms]
  have a: "step (Ack (Some fault)) s = step (Ack None) s"
    by (simp add: enable_written_def split: list.splits)
  have b: "faults (trace s) = []"
    using i by (simp add: inv_state_def common_def)
  have c: "\<exists>s'. step (Ack (Some fault)) s = Inr s' \<and> activeItem s' = Some b \<and> queue s' = Some rest \<and>
          acks s' = [(args_delay b, Some QueueNext)] \<and>
          immediates s' =
            immediates s @ (case item_callback a of None \<Rightarrow> [] | Some f \<Rightarrow> [(f, None)]) \<and>
          latched lv (trace s') = latched lv (trace s) @ [nibble_of b]"
    if h: "activeItem s = Some a \<and> queue s = Some (b # rest) \<and> acks s = [(None, cb)]"
    for a b rest cb
  proof -
    have "common (s\<lparr>acks := []\<rparr>)"
      using i by (simp add: inv_state_def common_def pending_def pipeline_def)
    moreover have "timers s = []" "cb = Some QueueNext"
      using i h by (auto simp: inv_state_def flight_def)
    ultimately show ?thesis
      using done_next_facts [of "s\<lparr>acks := []\<rparr>" a "b # rest" lv] h
      by (auto simp: enable_written_def)
  qed
  from drain_run [OF i refl, of "Some fault" lv]
  obtain s' where s': "run (drain (Some fault) (pending s)) s = Inr s'" "inv_state s'"
    "pending s' = []"
    "immediates s' = immediates s @ map (\<lambda>f. (f, None)) (callbacks (pending s))"
    "latched lv (trace s') = latched lv (trace s) @ map nibble_of (tl (pending s))"
    by blast
  then have "outstanding s' = 0" "faults (trace s') = []"
    by (auto simp: inv_state_def flight_def common_def pending_def outstanding_def
        split: option.splits)
  with s' have d: "\<exists>s'. run (drain (Some fault) (pending s)) s = Inr s' \<and> pending s' = [] \<and>
       outstanding s' = 0 \<and>
       immediates s' = immediates s @ map (\<lambda>f. (f, None)) (callbacks (pending s)) \<and>
       latched lv (trace s') = latched lv (trace s) @ map nibble_of (tl (pending s)) \<and>
       faults (trace s') = []"
    by blast
  from a b c d show ?thesis by blast
qed

theorem fault_dropped_queue_proceeds_witness:
  "\<exists>s s'. run [Call (Write 0 0 5 None (Some 1)), Call (Clear (Some 2))] init = Inr s \<and>
     run [Ack (Some ''line fault''), Ack (Some ''line fault''), Tick 10, Timeout,
          Ack (Some ''line fault''), Tick 10, Timeout] s = Inr s' \<and>
     pending s' = [] \<and> outstanding s' = 0 \<and>
     immediates s' = [(User 1, None), (User 2, None)] \<and>
     latched (\<lambda>l. 0) (trace s') = [(0, 0, 0x5), (0, 0, 0x0), (0, 0, 0x1)]"
proof -
  obtain s where s: "run [Call (Write 0 0 5 None (Some 1)), Call (Clear (Some 2))] init = Inr s"
    "pending s = [\<lparr>args_rs = 0, args_rw = 0, args_bits = 5, args_delay = None,
        item_callback = Some (User 1)\<rparr>,
      \<lparr>args_rs = 0, args_rw = 0, args_bits = 0, args_delay = Some 10, item_callback = None\<rparr>,
      \<lparr>args_rs = 0, args_rw = 0, args_bits = 1, args_delay = Some 10,
        item_callback = Some (User 2)\<rparr>]"
    "immediates s = []"
    "latched (\<lambda>l. 0) (trace s) = [(0, 0, 0x5)]"
    by (simp add: eval)
  from fault_dropped_queue_proceeds [OF s(1), of "''line fault''" "\<lambda>l. 0"] s
  show ?thesis
    by (auto simp: nibble_of_def)
qed

text \<open>
  Claim C3 as stated says that the failure is delivered to the notifier of the failing
  request. A request with a notifier whose enable write fails has its notifier run with no
  error.
\<close>

theorem fault_not_delivered_counterexample:
  "notified (trace_of (run [Call (Write 0 0 5 None (Some 1)), Ack (Some ''line fault''),
       Immediate] init)) = [(User 1, None)] \<and>
   (User 1, Some ''line fault'') \<notin> set (notified (trace_of (run
      [Call (Write 0 0 5 None (Some 1)), Ack (Some ''line fault''), Immediate] init)))"
  by (simp add: eval trace_of_def)

section \<open>Printing\<close>



end
